theory Spec2Isabelle
  imports Main "HOL-Library.Word"
begin

section \<open>eventlib: an in-process event queue with callbacks\<close>

text \<open>
  A shallow embedding of \<^verbatim>\<open>eventlib.c\<close> / \<^verbatim>\<open>eventlib.h\<close>.

  \<^item> \<^verbatim>\<open>size_t\<close> is a 64-bit word: \<open>+\<close> and \<open>-\<close> wrap as in C.
  \<^item> A pointer that may be \<^verbatim>\<open>NULL\<close> is an \<open>option\<close>: a string \<^verbatim>\<open>const char *\<close> is
    \<open>string option\<close>, a buffer \<^verbatim>\<open>const void *\<close> is \<open>byte list option\<close>, a callback pointer
    is a function option.
  \<^item> A processor handle \<^verbatim>\<open>event_processor_t *\<close> is \<open>NULL\<close> or \<open>Handle\<close>, the address of the one
    processor object of the memory; \<^verbatim>\<open>proc->f\<close> is \<open>f (proc m)\<close>.
  \<^item> The singly linked list from \<^verbatim>\<open>queue_head\<close> to \<^verbatim>\<open>queue_tail\<close> is the list
    \<open>queue\<close> of its nodes, head first: \<^verbatim>\<open>queue_head == NULL\<close> is \<open>queue = []\<close>, appending
    behind \<^verbatim>\<open>queue_tail\<close> is \<open>queue @ [node]\<close>.
  \<^item> The memory \<open>mem\<close> is everything a call can change: the processor object, the object
    behind \<^verbatim>\<open>user_data\<close>, the sequence of callback invocations made so far (\<open>calls\<close>, oldest
    first), and the number of heap blocks the library holds (\<open>live_blocks\<close>). Each callback
    invocation is recorded with the value \<^verbatim>\<open>proc->state\<close> has at the moment of the call, which
    is what a hook asking \<^verbatim>\<open>event_processor_get_state\<close> would be answered.
  \<^item> A callback is a function on the user data; it is handed the event or the strings and the
    user data only, so a callback that re-enters the processor is outside this model.
  \<^item> What \<^verbatim>\<open>calloc\<close>, \<^verbatim>\<open>strdup\<close> and \<^verbatim>\<open>malloc\<close> answer during one call is a parameter of the
    call (\<open>alloc_outcome\<close>), so that every failure path of the source is a branch.
\<close>

type_synonym size_t = "64 word"
type_synonym byte = "8 word"

subsection \<open>Data model (eventlib.h, eventlib.c lines 20--50)\<close>

datatype event_type_t =
  EVENT_TYPE_DATA | EVENT_TYPE_CONNECT | EVENT_TYPE_DISCONNECT | EVENT_TYPE_ERROR

text \<open>The integer value of an event type, as \<^verbatim>\<open>%d\<close> prints it.\<close>

fun event_type_code :: "event_type_t \<Rightarrow> nat" where
  "event_type_code EVENT_TYPE_DATA = 0"
| "event_type_code EVENT_TYPE_CONNECT = 1"
| "event_type_code EVENT_TYPE_DISCONNECT = 2"
| "event_type_code EVENT_TYPE_ERROR = 3"

record event_t =
  type :: event_type_t
  source :: "string option"
  data :: "byte list option"
  data_len :: size_t

record event_node_t =
  event :: event_t
  source_copy :: "string option"
  data_copy :: "byte list option"

text \<open>
  \<^verbatim>\<open>processor_state_t\<close> is a C enum, that is an integer object: the three enumerators are
  the values 0, 1 and 2, and \<^verbatim>\<open>state_to_string\<close> has a \<^verbatim>\<open>default\<close> branch for every other
  value.
\<close>

type_synonym processor_state_t = "32 word"

definition STATE_IDLE :: processor_state_t where "STATE_IDLE = 0"
definition STATE_RUNNING :: processor_state_t where "STATE_RUNNING = 1"
definition STATE_STOPPED :: processor_state_t where "STATE_STOPPED = 2"

datatype call =
  LogCall string string
| EventCall event_t
| FilterCall event_t
| StateChangeCall string string

text \<open>A callback invocation, with the state of the processor when it is made.\<close>

type_synonym hook_call = "processor_state_t \<times> call"

text \<open>
  The configuration. Its \<^verbatim>\<open>user_data\<close> pointer never changes; the object it points to is
  the field \<open>user_data\<close> of the memory below, which every callback may update.
\<close>

record 'u event_config_t =
  name :: "string option"
  max_queue_size :: size_t
  enable_logging :: bool
  on_event :: "(event_t \<Rightarrow> 'u \<Rightarrow> 'u) option"
  on_log :: "(string \<Rightarrow> string \<Rightarrow> 'u \<Rightarrow> 'u) option"
  on_filter :: "(event_t \<Rightarrow> 'u \<Rightarrow> bool \<times> 'u) option"
  on_state_change :: "(string \<Rightarrow> string \<Rightarrow> 'u \<Rightarrow> 'u) option"

record 'u event_processor =
  config :: "'u event_config_t"
  name_copy :: "string option"
  state :: processor_state_t
  queue :: "event_node_t list"
  queue_size :: size_t
  events_processed :: size_t

datatype handle = NULL | Handle

record 'u mem =
  proc :: "'u event_processor"
  user_data :: 'u
  calls :: "hook_call list"
  live_blocks :: int

record alloc_outcome =
  node_ok :: bool
  source_ok :: bool
  data_ok :: bool

subsection \<open>Helpers (eventlib.c lines 52--102)\<close>

definition state_to_string :: "processor_state_t \<Rightarrow> string" where
  "state_to_string st =
     (if st = STATE_IDLE then ''IDLE''
      else if st = STATE_RUNNING then ''RUNNING''
      else if st = STATE_STOPPED then ''STOPPED''
      else ''UNKNOWN'')"

text \<open>Decimal digits of a number, as \<^verbatim>\<open>%zu\<close> and \<^verbatim>\<open>%d\<close> print a non-negative value.\<close>

fun dec :: "nat \<Rightarrow> string" where
  "dec n = (if n < 10 then [char_of (48 + n)] else dec (n div 10) @ [char_of (48 + n mod 10)])"

declare dec.simps [simp del]

text \<open>
  \<^verbatim>\<open>log_message\<close>: nothing happens unless logging is enabled and the hook is set; otherwise
  the text, cut by \<^verbatim>\<open>vsnprintf\<close> to the 255 characters that fit the 256-byte buffer, goes to
  the hook. The caller passes the text already formatted.
\<close>

definition log_message :: "'u mem \<Rightarrow> string \<Rightarrow> string \<Rightarrow> 'u mem" where
  "log_message m level text =
     (if \<not> enable_logging (config (proc m)) then m
      else case on_log (config (proc m)) of
        None \<Rightarrow> m
      | Some cb \<Rightarrow>
          m\<lparr>user_data := cb level (take 255 text) (user_data m),
            calls := calls m @ [(state (proc m), LogCall level (take 255 text))]\<rparr>)"

definition change_state :: "processor_state_t \<Rightarrow> 'u mem \<Rightarrow> 'u mem" where
  "change_state new_state m =
     (if state (proc m) = new_state then m
      else
        let old = state_to_string (state (proc m));
            new = state_to_string new_state;
            m1 = log_message m ''INFO'' (''State change: '' @ old @ '' -> '' @ new);
            m2 = m1\<lparr>proc := (proc m1)\<lparr>state := new_state\<rparr>\<rparr>
        in case on_state_change (config (proc m2)) of
             None \<Rightarrow> m2
           | Some cb \<Rightarrow>
               m2\<lparr>user_data := cb old new (user_data m2),
                  calls := calls m2 @ [(state (proc m2), StateChangeCall old new)]\<rparr>)"

subsection \<open>The allocator\<close>

text \<open>
  \<^verbatim>\<open>strdup\<close> answers a copy and one more live block, or \<^verbatim>\<open>NULL\<close>. \<^verbatim>\<open>free\<close> of \<^verbatim>\<open>NULL\<close> does
  nothing; of a block, it releases it.
\<close>

definition strdup :: "bool \<Rightarrow> string \<Rightarrow> 'u mem \<Rightarrow> string option \<times> 'u mem" where
  "strdup ok s m = (if ok then (Some s, m\<lparr>live_blocks := live_blocks m + 1\<rparr>) else (None, m))"

definition free :: "'a option \<Rightarrow> 'u mem \<Rightarrow> 'u mem" where
  "free p m = (case p of None \<Rightarrow> m | Some _ \<Rightarrow> m\<lparr>live_blocks := live_blocks m - 1\<rparr>)"

text \<open>The three \<^verbatim>\<open>free\<close> calls that release a node: its source copy, its data copy, itself.\<close>

definition free_node :: "event_node_t \<Rightarrow> 'u mem \<Rightarrow> 'u mem" where
  "free_node node m =
     (let m1 = free (source_copy node) m;
          m2 = free (data_copy node) m1
      in m2\<lparr>live_blocks := live_blocks m2 - 1\<rparr>)"

subsection \<open>Create and destroy (eventlib.c lines 104--151)\<close>

text \<open>
  \<open>proc_ok\<close> and \<open>name_ok\<close> say whether \<^verbatim>\<open>calloc\<close> of the processor and \<^verbatim>\<open>strdup\<close> of the
  name succeed. On success the processor object of the memory is the new one.
\<close>

definition event_processor_create ::
  "bool \<Rightarrow> bool \<Rightarrow> 'u event_config_t option \<Rightarrow> 'u mem \<Rightarrow> handle \<times> 'u mem" where
  "event_processor_create proc_ok name_ok cfg m =
     (case cfg of
        None \<Rightarrow> (NULL, m)
      | Some c \<Rightarrow>
          if \<not> proc_ok then (NULL, m)
          else
            let m0 = m\<lparr>live_blocks := live_blocks m + 1\<rparr>;
                (nc, m1) = (case name c of
                              None \<Rightarrow> (None, m0)
                            | Some s \<Rightarrow> strdup name_ok s m0);
                p = \<lparr>config = c\<lparr>name := nc\<rparr>, name_copy = nc, state = STATE_IDLE,
                     queue = [], queue_size = 0, events_processed = 0\<rparr>;
                m2 = m1\<lparr>proc := p\<rparr>
            in (Handle,
                log_message m2 ''INFO''
                  (''Event processor '' @ [CHR 0x27] @
                   (case name (config p) of Some s \<Rightarrow> s | None \<Rightarrow> ''unnamed'') @
                   [CHR 0x27] @ '' created'')))"

subsection \<open>Push (eventlib.c lines 153--227)\<close>

text \<open>
  Lines 171--196, once \<^verbatim>\<open>calloc\<close> of the node has succeeded: the zeroed node gets the type and
  the length, then the copy of the source, then the copy of the data. \<^verbatim>\<open>memcpy\<close> reads
  \<^verbatim>\<open>data_len\<close> bytes, so the caller's buffer is taken to hold at least that many.
\<close>

definition build_node ::
  "alloc_outcome \<Rightarrow> event_type_t \<Rightarrow> string option \<Rightarrow> byte list option \<Rightarrow> size_t \<Rightarrow> 'u mem
   \<Rightarrow> event_node_t \<times> 'u mem" where
  "build_node al ty src dat len m =
     (let m0 = m\<lparr>live_blocks := live_blocks m + 1\<rparr>;
          node0 = \<lparr>event = \<lparr>type = ty, source = None, data = None, data_len = len\<rparr>,
                   source_copy = None, data_copy = None\<rparr>;
          (node1, m1) =
            (case src of
               None \<Rightarrow> (node0, m0)
             | Some s \<Rightarrow>
                 (case strdup (source_ok al) s m0 of
                    (c, m') \<Rightarrow> (node0\<lparr>event := (event node0)\<lparr>source := c\<rparr>, source_copy := c\<rparr>, m')))
      in (case dat of
            None \<Rightarrow> (node1, m1)
          | Some d \<Rightarrow>
              if len > 0 then
                (if data_ok al then
                   (node1\<lparr>event := (event node1)\<lparr>data := Some (take (unat len) d)\<rparr>,
                          data_copy := Some (take (unat len) d)\<rparr>,
                    m1\<lparr>live_blocks := live_blocks m1 + 1\<rparr>)
                 else (node1, m1))
              else (node1, m1)))"

definition event_processor_push ::
  "alloc_outcome \<Rightarrow> handle \<Rightarrow> event_type_t \<Rightarrow> string option \<Rightarrow> byte list option \<Rightarrow> size_t
   \<Rightarrow> 'u mem \<Rightarrow> bool \<times> 'u mem" where
  "event_processor_push al h ty src dat len m =
     (case h of
        NULL \<Rightarrow> (False, m)
      | Handle \<Rightarrow>
          if max_queue_size (config (proc m)) > 0 \<and>
             queue_size (proc m) \<ge> max_queue_size (config (proc m))
          then (False,
                log_message m ''WARN''
                  (''Queue full ('' @ dec (unat (queue_size (proc m))) @ '' items)''))
          else if \<not> node_ok al then (False, m)
          else
            let (node, m1) = build_node al ty src dat len m;
                enqueue = (\<lambda>m2.
                  let m3 = m2\<lparr>proc := (proc m2)\<lparr>queue := queue (proc m2) @ [node],
                                               queue_size := queue_size (proc m2) + 1\<rparr>\<rparr>
                  in (True,
                      log_message m3 ''DEBUG''
                        (''Event queued (type='' @ dec (event_type_code ty) @ '', queue_size='' @
                         dec (unat (queue_size (proc m3))) @ '')'')))
            in (case on_filter (config (proc m1)) of
                  None \<Rightarrow> enqueue m1
                | Some flt \<Rightarrow>
                    (case flt (event node) (user_data m1) of
                       (keep, u) \<Rightarrow>
                         let m2 = m1\<lparr>user_data := u,
                                  calls := calls m1 @ [(state (proc m1), FilterCall (event node))]\<rparr>
                         in if \<not> keep
                            then (True, free_node node (log_message m2 ''DEBUG'' ''Event filtered out''))
                            else enqueue m2)))"

subsection \<open>Process (eventlib.c lines 229--283)\<close>

definition event_processor_process :: "handle \<Rightarrow> 'u mem \<Rightarrow> 'u mem" where
  "event_processor_process h m =
     (case h of
        NULL \<Rightarrow> m
      | Handle \<Rightarrow>
          (case queue (proc m) of
             [] \<Rightarrow> m
           | node # rest \<Rightarrow>
               if state (proc m) \<noteq> STATE_RUNNING
               then log_message m ''WARN'' ''Processor not running''
               else
                 let m1 = m\<lparr>proc := (proc m)\<lparr>queue := rest,
                                             queue_size := queue_size (proc m) - 1\<rparr>\<rparr>;
                     m2 = log_message m1 ''DEBUG''
                            (''Processing event (type='' @ dec (event_type_code (type (event node))) @
                             '')'');
                     m3 = (case on_event (config (proc m2)) of
                             None \<Rightarrow> m2
                           | Some cb \<Rightarrow>
                               m2\<lparr>user_data := cb (event node) (user_data m2),
                                  calls := calls m2 @ [(state (proc m2), EventCall (event node))]\<rparr>);
                     m4 = m3\<lparr>proc := (proc m3)\<lparr>events_processed :=
                                                 events_processed (proc m3) + 1\<rparr>\<rparr>
                 in free_node node m4))"

text \<open>
  The loop of \<^verbatim>\<open>event_processor_process_all\<close>: \<^verbatim>\<open>while (proc->queue_head)\<close>, with its
  counter. The loop need not end, so its result is an option: \<open>None\<close> is a call that never
  returns.
\<close>

partial_function (option) process_all_loop :: "'u mem \<Rightarrow> size_t \<Rightarrow> ('u mem \<times> size_t) option" where
  "process_all_loop m count =
     (if queue (proc m) \<noteq> []
      then process_all_loop (event_processor_process Handle m) (count + 1)
      else Some (m, count))"

declare process_all_loop.simps [code]

definition event_processor_process_all :: "handle \<Rightarrow> 'u mem \<Rightarrow> 'u mem option" where
  "event_processor_process_all h m =
     (case h of
        NULL \<Rightarrow> Some m
      | Handle \<Rightarrow>
          (case process_all_loop m 0 of
             None \<Rightarrow> None
           | Some (m1, count) \<Rightarrow>
               Some (if count > 0
                     then log_message m1 ''INFO'' (''Processed '' @ dec (unat count) @ '' events'')
                     else m1)))"

subsection \<open>Queries and control (eventlib.c lines 285--340)\<close>

definition event_processor_get_state :: "handle \<Rightarrow> 'u mem \<Rightarrow> string" where
  "event_processor_get_state h m =
     (case h of Handle \<Rightarrow> state_to_string (state (proc m)) | NULL \<Rightarrow> ''INVALID'')"

definition event_processor_queue_size :: "handle \<Rightarrow> 'u mem \<Rightarrow> size_t" where
  "event_processor_queue_size h m = (case h of Handle \<Rightarrow> queue_size (proc m) | NULL \<Rightarrow> 0)"

definition event_processor_events_processed :: "handle \<Rightarrow> 'u mem \<Rightarrow> size_t" where
  "event_processor_events_processed h m =
     (case h of Handle \<Rightarrow> events_processed (proc m) | NULL \<Rightarrow> 0)"

definition event_processor_start :: "handle \<Rightarrow> 'u mem \<Rightarrow> 'u mem" where
  "event_processor_start h m = (case h of NULL \<Rightarrow> m | Handle \<Rightarrow> change_state STATE_RUNNING m)"

definition event_processor_stop :: "handle \<Rightarrow> 'u mem \<Rightarrow> 'u mem" where
  "event_processor_stop h m = (case h of NULL \<Rightarrow> m | Handle \<Rightarrow> change_state STATE_STOPPED m)"

text \<open>The loop of \<^verbatim>\<open>event_processor_clear_queue\<close> walks the list once, freeing each node.\<close>

fun clear_loop :: "event_node_t list \<Rightarrow> size_t \<Rightarrow> 'u mem \<Rightarrow> size_t \<times> 'u mem" where
  "clear_loop [] cleared m = (cleared, m)"
| "clear_loop (node # rest) cleared m = clear_loop rest (cleared + 1) (free_node node m)"

definition event_processor_clear_queue :: "handle \<Rightarrow> 'u mem \<Rightarrow> 'u mem" where
  "event_processor_clear_queue h m =
     (case h of
        NULL \<Rightarrow> m
      | Handle \<Rightarrow>
          (case clear_loop (queue (proc m)) 0 m of
             (cleared, m1) \<Rightarrow>
               let m2 = m1\<lparr>proc := (proc m1)\<lparr>queue := [], queue_size := 0\<rparr>\<rparr>
               in if cleared > 0
                  then log_message m2 ''INFO''
                         (''Cleared '' @ dec (unat cleared) @ '' events from queue'')
                  else m2))"

text \<open>
  \<^verbatim>\<open>event_processor_destroy\<close>: the log entry, the queue cleared, the name and the processor
  freed. The handle is dead afterwards.
\<close>

definition event_processor_destroy :: "handle \<Rightarrow> 'u mem \<Rightarrow> 'u mem" where
  "event_processor_destroy h m =
     (case h of
        NULL \<Rightarrow> m
      | Handle \<Rightarrow>
          let m1 = log_message m ''INFO''
                     (''Destroying event processor '' @ [CHR 0x27] @
                      (case name (config (proc m)) of Some s \<Rightarrow> s | None \<Rightarrow> ''unnamed'') @
                      [CHR 0x27]);
              m2 = event_processor_clear_queue h m1;
              m3 = free (name_copy (proc m2)) m2
          in m3\<lparr>live_blocks := live_blocks m3 - 1\<rparr>)"

subsection \<open>Sequences of calls\<close>

text \<open>
  One call of the interface on the live handle, and a sequence of them. \<open>None\<close> is a call
  that never returns (only \<^verbatim>\<open>event_processor_process_all\<close> can).
\<close>

datatype api_call =
  Push alloc_outcome event_type_t "string option" "byte list option" size_t
| Process
| ProcessAll
| Start
| Stop
| ClearQueue

fun exec :: "api_call \<Rightarrow> 'u mem \<Rightarrow> 'u mem option" where
  "exec (Push al ty src dat len) m = Some (snd (event_processor_push al Handle ty src dat len m))"
| "exec Process m = Some (event_processor_process Handle m)"
| "exec ProcessAll m = event_processor_process_all Handle m"
| "exec Start m = Some (event_processor_start Handle m)"
| "exec Stop m = Some (event_processor_stop Handle m)"
| "exec ClearQueue m = Some (event_processor_clear_queue Handle m)"

fun run :: "api_call list \<Rightarrow> 'u mem \<Rightarrow> 'u mem option" where
  "run [] m = Some m"
| "run (c # cs) m = (case exec c m of None \<Rightarrow> None | Some m1 \<Rightarrow> run cs m1)"

text \<open>A push request: what the allocator will answer, and the four arguments of the call.\<close>

type_synonym push_request =
  "alloc_outcome \<times> event_type_t \<times> string option \<times> byte list option \<times> size_t"

fun push_each :: "push_request list \<Rightarrow> 'u mem \<Rightarrow> bool list \<times> 'u mem" where
  "push_each [] m = ([], m)"
| "push_each ((al, ty, src, dat, len) # rs) m =
     (case event_processor_push al Handle ty src dat len m of
        (ok, m1) \<Rightarrow> (case push_each rs m1 of (oks, m2) \<Rightarrow> (ok # oks, m2)))"

text \<open>
  No push of the sequence is filtered: at each push, in the memory that push is made in, no
  filter is configured or the filter answers true on the candidate event.
\<close>

fun none_filtered :: "push_request list \<Rightarrow> 'u mem \<Rightarrow> bool" where
  "none_filtered [] m = True"
| "none_filtered ((al, ty, src, dat, len) # rs) m =
     ((case on_filter (config (proc m)) of
         None \<Rightarrow> True
       | Some flt \<Rightarrow> fst (flt (event (fst (build_node al ty src dat len m))) (user_data m))) \<and>
      none_filtered rs (snd (event_processor_push al Handle ty src dat len m)))"

text \<open>\<open>n\<close> successive calls of \<^verbatim>\<open>event_processor_process\<close>.\<close>

fun process_times :: "nat \<Rightarrow> 'u mem \<Rightarrow> 'u mem" where
  "process_times 0 m = m"
| "process_times (Suc n) m = process_times n (event_processor_process Handle m)"

subsection \<open>Observations and predicates used in the statements\<close>

text \<open>The events handed to the consume callback, and the state-change notifications, in order.\<close>

fun delivered :: "hook_call list \<Rightarrow> event_t list" where
  "delivered [] = []"
| "delivered ((st, EventCall e) # cs) = e # delivered cs"
| "delivered (c # cs) = delivered cs"

fun state_changes :: "hook_call list \<Rightarrow> (string \<times> string) list" where
  "state_changes [] = []"
| "state_changes ((st, StateChangeCall old new) # cs) = (old, new) # state_changes cs"
| "state_changes (c # cs) = state_changes cs"

text \<open>The capacity test of push (lines 164--165).\<close>

definition queue_full :: "'u mem \<Rightarrow> bool" where
  "queue_full m \<longleftrightarrow>
     max_queue_size (config (proc m)) > 0 \<and>
     queue_size (proc m) \<ge> max_queue_size (config (proc m))"

text \<open>
  The capacity bound: when a capacity is set, the counter is the number of queued nodes and
  does not exceed the capacity.
\<close>

definition within_capacity :: "'u mem \<Rightarrow> bool" where
  "within_capacity m \<longleftrightarrow>
     max_queue_size (config (proc m)) = 0 \<or>
     (unat (queue_size (proc m)) = length (queue (proc m)) \<and>
      queue_size (proc m) \<le> max_queue_size (config (proc m)))"

text \<open>
  The invariant of an event as the specification words it: a payload that is present has a
  positive length, and a length of zero has no payload.
\<close>

definition event_ok :: "event_t \<Rightarrow> bool" where
  "event_ok e \<longleftrightarrow> (data e \<noteq> None \<longrightarrow> data_len e > 0) \<and> (data_len e = 0 \<longrightarrow> data e = None)"

fun call_ok :: "hook_call \<Rightarrow> bool" where
  "call_ok (st, EventCall e) = event_ok e"
| "call_ok (st, FilterCall e) = event_ok e"
| "call_ok _ = True"

definition events_ok :: "'u mem \<Rightarrow> bool" where
  "events_ok m \<longleftrightarrow>
     list_all (\<lambda>n. event_ok (event n)) (queue (proc m)) \<and> list_all call_ok (calls m)"

text \<open>
  The event a push request asks for, given what the allocator answers: the caller's type,
  its source when that copy succeeds, the first \<^verbatim>\<open>data_len\<close> bytes of its buffer when
  there is a buffer, the length is positive and that copy succeeds, and the caller's length.
\<close>

fun pushed_event :: "push_request \<Rightarrow> event_t" where
  "pushed_event (al, ty, src, dat, len) =
     \<lparr>type = ty,
      source = (if source_ok al then src else None),
      data = (case dat of
                None \<Rightarrow> None
              | Some d \<Rightarrow> if len > 0 \<and> data_ok al then Some (take (unat len) d) else None),
      data_len = len\<rparr>"

subsection \<open>Sample processors\<close>

definition all_ok :: alloc_outcome where
  "all_ok = \<lparr>node_ok = True, source_ok = True, data_ok = True\<rparr>"

definition source_fails :: alloc_outcome where
  "source_fails = \<lparr>node_ok = True, source_ok = False, data_ok = True\<rparr>"

definition data_fails :: alloc_outcome where
  "data_fails = \<lparr>node_ok = True, source_ok = True, data_ok = False\<rparr>"

definition node_fails :: alloc_outcome where
  "node_fails = \<lparr>node_ok = False, source_ok = True, data_ok = True\<rparr>"

text \<open>
  A configuration with every hook but the filter: the user data counts the events consumed.
  Capacity 2, logging on.
\<close>

definition sample_config :: "nat event_config_t" where
  "sample_config =
     \<lparr>name = Some ''demo'', max_queue_size = 2, enable_logging = True,
      on_event = Some (\<lambda>e u. u + 1),
      on_log = Some (\<lambda>level text u. u),
      on_filter = None,
      on_state_change = Some (\<lambda>old new u. u)\<rparr>"

text \<open>The same with a filter that rejects events of type \<^verbatim>\<open>EVENT_TYPE_ERROR\<close>.\<close>

definition filter_config :: "nat event_config_t" where
  "filter_config = sample_config\<lparr>on_filter := Some (\<lambda>e u. (type e \<noteq> EVENT_TYPE_ERROR, u))\<rparr>"

text \<open>A memory before any create: no call made yet, no block held.\<close>

definition blank :: "nat mem" where
  "blank =
     \<lparr>proc = \<lparr>config = sample_config, name_copy = None, state = 0, queue = [], queue_size = 0,
              events_processed = 0\<rparr>,
      user_data = 0, calls = [], live_blocks = 0\<rparr>"

text \<open>The memory right after a successful create with the given configuration.\<close>

definition created :: "nat event_config_t \<Rightarrow> nat mem" where
  "created cfg = snd (event_processor_create True True (Some cfg) blank)"

text \<open>An idle processor holding one event: created, then one push.\<close>

definition first_request :: push_request where
  "first_request = (all_ok, EVENT_TYPE_DATA, Some ''sensor'', Some [1, 2, 3], 3)"

definition second_request :: push_request where
  "second_request = (all_ok, EVENT_TYPE_CONNECT, Some ''link'', None, 0)"

definition error_request :: push_request where
  "error_request = (all_ok, EVENT_TYPE_ERROR, Some ''sensor'', None, 0)"

definition idle_with_one :: "nat mem" where
  "idle_with_one =
     snd (event_processor_push all_ok Handle EVENT_TYPE_DATA (Some ''sensor'') (Some [1, 2, 3]) 3
            (created sample_config))"

text \<open>The same after a second push: two events, which is the capacity.\<close>

definition full_queue :: "nat mem" where
  "full_queue =
     snd (event_processor_push all_ok Handle EVENT_TYPE_CONNECT (Some ''link'') None 0 idle_with_one)"

text \<open>A started processor with an empty queue.\<close>

definition running :: "nat mem" where
  "running = event_processor_start Handle (created sample_config)"

text \<open>A started processor with an empty queue and the filter that rejects error events.\<close>

definition running_with_filter :: "nat mem" where
  "running_with_filter = event_processor_start Handle (created filter_config)"

section \<open>Properties\<close>

subsection \<open>Basic facts\<close>

lemma delivered_append: "delivered (xs @ ys) = delivered xs @ delivered ys"
  by (induction xs rule: delivered.induct) simp_all

lemma state_changes_append: "state_changes (xs @ ys) = state_changes xs @ state_changes ys"
  by (induction xs rule: state_changes.induct) simp_all

lemma log_message_proc: "proc (log_message m level text) = proc m"
  by (simp add: log_message_def split: option.split)

lemma log_message_live: "live_blocks (log_message m level text) = live_blocks m"
  by (simp add: log_message_def split: option.split)

lemma log_message_calls:
  "calls (log_message m level text) = calls m \<or>
   calls (log_message m level text) = calls m @ [(state (proc m), LogCall level (take 255 text))]"
  by (simp add: log_message_def split: option.split)

lemma log_message_delivered: "delivered (calls (log_message m level text)) = delivered (calls m)"
  by (simp add: log_message_def delivered_append split: option.split)

lemma log_message_state_changes:
  "state_changes (calls (log_message m level text)) = state_changes (calls m)"
  by (simp add: log_message_def state_changes_append split: option.split)

lemma log_message_calls_ok:
  "list_all call_ok (calls (log_message m level text)) = list_all call_ok (calls m)"
  by (simp add: log_message_def split: option.split)

lemma free_node_proc: "proc (free_node node m) = proc m"
  by (simp add: free_node_def free_def Let_def split: option.split)

lemma free_node_calls: "calls (free_node node m) = calls m"
  by (simp add: free_node_def free_def Let_def split: option.split)

lemma process_not_running:
  "state (proc m) \<noteq> STATE_RUNNING \<Longrightarrow>
   event_processor_process Handle m =
     (if queue (proc m) = [] then m else log_message m ''WARN'' ''Processor not running'')"
  by (simp add: event_processor_process_def split: list.split)

lemma state_consts_distinct:
  "STATE_IDLE \<noteq> STATE_RUNNING" "STATE_STOPPED \<noteq> STATE_RUNNING" "STATE_IDLE \<noteq> STATE_STOPPED"
  by (simp_all add: STATE_IDLE_def STATE_RUNNING_def STATE_STOPPED_def)

lemma created_sample_proc:
  "proc (created sample_config) =
     \<lparr>config = sample_config, name_copy = Some ''demo'', state = STATE_IDLE,
      queue = [], queue_size = 0, events_processed = 0\<rparr>"
  by (simp add: created_def blank_def sample_config_def event_processor_create_def strdup_def
      log_message_def Let_def)

lemma change_state_state: "state (proc (change_state ns m)) = ns"
  by (simp add: change_state_def Let_def log_message_proc split: option.split)

lemma change_state_same: "state (proc m) = ns \<Longrightarrow> change_state ns m = m"
  by (simp add: change_state_def)

lemma change_state_changes:
  "state_changes (calls (change_state ns m)) =
     state_changes (calls m) @
     (if state (proc m) \<noteq> ns \<and> on_state_change (config (proc m)) \<noteq> None
      then [(state_to_string (state (proc m)), state_to_string ns)] else [])"
  by (auto simp add: change_state_def Let_def log_message_proc log_message_state_changes
      state_changes_append)

lemma change_state_calls:
  "state (proc m) \<noteq> ns \<Longrightarrow>
   calls (change_state ns m) =
     calls m @
     (if enable_logging (config (proc m)) \<and> on_log (config (proc m)) \<noteq> None
      then [(state (proc m),
             LogCall ''INFO''
               (take 255 (''State change: '' @ state_to_string (state (proc m)) @ '' -> '' @
                          state_to_string ns)))]
      else []) @
     (if on_state_change (config (proc m)) \<noteq> None
      then [(ns, StateChangeCall (state_to_string (state (proc m))) (state_to_string ns))]
      else [])"
  by (auto simp add: change_state_def Let_def log_message_def)

lemma process_all_loop_stuck:
  assumes "process_all_loop m c = Some r"
  shows "state (proc m) = STATE_RUNNING \<or> queue (proc m) = []"
proof (rule process_all_loop.raw_induct
    [where P = "\<lambda>m c r. state (proc m) = STATE_RUNNING \<or> queue (proc m) = []", OF _ assms])
  fix loop :: "'a mem \<Rightarrow> size_t \<Rightarrow> ('a mem \<times> size_t) option" and m c r
  assume IH: "\<And>m c r. loop m c = Some r \<Longrightarrow> state (proc m) = STATE_RUNNING \<or> queue (proc m) = []"
  assume eq: "(if queue (proc m) \<noteq> [] then loop (event_processor_process Handle m) (c + 1)
               else Some (m, c)) = Some r"
  show "state (proc m) = STATE_RUNNING \<or> queue (proc m) = []"
  proof (rule ccontr)
    assume "\<not> (state (proc m) = STATE_RUNNING \<or> queue (proc m) = [])"
    then have nr: "state (proc m) \<noteq> STATE_RUNNING" and ne: "queue (proc m) \<noteq> []" by auto
    from ne eq have "loop (event_processor_process Handle m) (c + 1) = Some r" by simp
    then have "state (proc (event_processor_process Handle m)) = STATE_RUNNING \<or>
               queue (proc (event_processor_process Handle m)) = []"
      by (rule IH)
    with nr ne show False
      by (simp add: process_not_running log_message_proc)
  qed
qed

lemma process_all_not_running_diverges:
  "state (proc m) \<noteq> STATE_RUNNING \<Longrightarrow> queue (proc m) \<noteq> [] \<Longrightarrow>
   event_processor_process_all Handle m = None"
proof -
  assume a: "state (proc m) \<noteq> STATE_RUNNING" "queue (proc m) \<noteq> []"
  have "process_all_loop m 0 = None"
  proof (cases "process_all_loop m 0")
    case (Some r)
    from process_all_loop_stuck [OF Some] a show ?thesis by simp
  qed simp
  then show ?thesis by (simp add: event_processor_process_all_def)
qed

lemma idle_with_one_proc:
  "proc idle_with_one =
     \<lparr>config = sample_config, name_copy = Some ''demo'', state = STATE_IDLE,
      queue = [\<lparr>event = \<lparr>type = EVENT_TYPE_DATA, source = Some ''sensor'',
                         data = Some [1, 2, 3], data_len = 3\<rparr>,
                source_copy = Some ''sensor'', data_copy = Some [1, 2, 3]\<rparr>],
      queue_size = 1, events_processed = 0\<rparr>"
  by (simp add: idle_with_one_def created_def blank_def sample_config_def
      event_processor_create_def event_processor_push_def all_ok_def build_node_def strdup_def
      log_message_def Let_def)

subsection \<open>Facts about push\<close>

lemma build_node_event:
  "event (fst (build_node al ty src dat len m)) = pushed_event (al, ty, src, dat, len)"
  by (simp add: build_node_def strdup_def Let_def split: option.split prod.split)

lemma build_node_proc: "proc (snd (build_node al ty src dat len m)) = proc m"
  by (simp add: build_node_def strdup_def Let_def split: option.split prod.split)

lemma build_node_calls: "calls (snd (build_node al ty src dat len m)) = calls m"
  by (simp add: build_node_def strdup_def Let_def split: option.split prod.split)

lemma build_node_user_data: "user_data (snd (build_node al ty src dat len m)) = user_data m"
  by (simp add: build_node_def strdup_def Let_def split: option.split prod.split)

text \<open>Freeing the node that was built releases exactly the blocks its construction took.\<close>

lemma build_node_released:
  "live_blocks m' = live_blocks (snd (build_node al ty src dat len m)) \<Longrightarrow>
   live_blocks (free_node (fst (build_node al ty src dat len m)) m') = live_blocks m"
  by (simp add: build_node_def strdup_def free_node_def free_def Let_def
      split: option.split prod.split)

lemma push_full:
  "queue_full m \<Longrightarrow>
   event_processor_push al Handle ty src dat len m =
     (False, log_message m ''WARN''
               (''Queue full ('' @ dec (unat (queue_size (proc m))) @ '' items)''))"
  by (simp add: event_processor_push_def queue_full_def)

lemma push_no_node:
  "\<not> queue_full m \<Longrightarrow> \<not> node_ok al \<Longrightarrow> event_processor_push al Handle ty src dat len m = (False, m)"
  by (auto simp add: event_processor_push_def queue_full_def)

lemma push_filtered_out:
  assumes "\<not> queue_full m" "node_ok al" "on_filter (config (proc m)) = Some flt"
    and "flt (event (fst (build_node al ty src dat len m))) (user_data m) = (False, u)"
  shows "event_processor_push al Handle ty src dat len m =
     (True,
      free_node (fst (build_node al ty src dat len m))
        (log_message
           ((snd (build_node al ty src dat len m))
              \<lparr>user_data := u,
               calls := calls m @ [(state (proc m), FilterCall (event (fst (build_node al ty src dat len m))))]\<rparr>)
           ''DEBUG'' ''Event filtered out''))"
  using assms
  by (auto simp add: event_processor_push_def queue_full_def build_node_proc build_node_calls
      build_node_user_data Let_def case_prod_beta)

lemma push_kept:
  assumes "\<not> queue_full m" "node_ok al"
    and "on_filter (config (proc m)) = None \<and> m1 = snd (build_node al ty src dat len m) \<or>
         (\<exists>flt u. on_filter (config (proc m)) = Some flt \<and>
            flt (event (fst (build_node al ty src dat len m))) (user_data m) = (True, u) \<and>
            m1 = (snd (build_node al ty src dat len m))
                   \<lparr>user_data := u,
                    calls := calls m @ [(state (proc m), FilterCall (event (fst (build_node al ty src dat len m))))]\<rparr>)"
  shows "event_processor_push al Handle ty src dat len m =
     (True,
      log_message
        (m1\<lparr>proc := (proc m)\<lparr>queue := queue (proc m) @ [fst (build_node al ty src dat len m)],
                              queue_size := queue_size (proc m) + 1\<rparr>\<rparr>)
        ''DEBUG''
        (''Event queued (type='' @ dec (event_type_code ty) @ '', queue_size='' @
         dec (unat (queue_size (proc m) + 1)) @ '')''))"
  using assms
  by (auto simp add: event_processor_push_def queue_full_def build_node_proc build_node_calls
      build_node_user_data Let_def case_prod_beta)

text \<open>Every push is one of the four.\<close>

lemma push_cases:
  obtains
    (full) "queue_full m"
  | (no_node) "\<not> queue_full m" "\<not> node_ok al"
  | (filtered) flt u where "\<not> queue_full m" "node_ok al" "on_filter (config (proc m)) = Some flt"
      "flt (event (fst (build_node al ty src dat len m))) (user_data m) = (False, u)"
  | (kept) m1 where "\<not> queue_full m" "node_ok al"
      "on_filter (config (proc m)) = None \<and> m1 = snd (build_node al ty src dat len m) \<or>
         (\<exists>flt u. on_filter (config (proc m)) = Some flt \<and>
            flt (event (fst (build_node al ty src dat len m))) (user_data m) = (True, u) \<and>
            m1 = (snd (build_node al ty src dat len m))
                   \<lparr>user_data := u,
                    calls := calls m @ [(state (proc m), FilterCall (event (fst (build_node al ty src dat len m))))]\<rparr>)"
proof (cases "queue_full m")
  case True then show ?thesis by (rule full)
next
  case nf: False
  show ?thesis
  proof (cases "node_ok al")
    case False with nf show ?thesis by (rule no_node)
  next
    case ok: True
    show ?thesis
    proof (cases "on_filter (config (proc m))")
      case None
      with nf ok show ?thesis by (intro kept [of "snd (build_node al ty src dat len m)"]) auto
    next
      case (Some flt)
      obtain keep u where r: "flt (event (fst (build_node al ty src dat len m))) (user_data m) = (keep, u)"
        by (cases "flt (event (fst (build_node al ty src dat len m))) (user_data m)")
      show ?thesis
      proof (cases keep)
        case True
        with nf ok Some r show ?thesis
          by (intro kept [of "(snd (build_node al ty src dat len m))
                   \<lparr>user_data := u,
                    calls := calls m @ [(state (proc m), FilterCall (event (fst (build_node al ty src dat len m))))]\<rparr>"]) auto
      next
        case False
        with nf ok Some r show ?thesis by (intro filtered [of flt u]) auto
      qed
    qed
  qed
qed

lemma push_returns_false_iff:
  "fst (event_processor_push al Handle ty src dat len m) = False \<longleftrightarrow> queue_full m \<or> \<not> node_ok al"
  by (rule push_cases [where m = m and al = al and ty = ty and src = src and dat = dat and len = len])
    (simp_all add: push_full push_no_node push_filtered_out push_kept)

lemma push_proc:
  "proc (snd (event_processor_push al Handle ty src dat len m)) = proc m \<or>
   \<not> queue_full m \<and> node_ok al \<and>
   proc (snd (event_processor_push al Handle ty src dat len m)) =
     (proc m)\<lparr>queue := queue (proc m) @ [fst (build_node al ty src dat len m)],
              queue_size := queue_size (proc m) + 1\<rparr>"
  by (rule push_cases [where m = m and al = al and ty = ty and src = src and dat = dat and len = len])
    (auto simp add: push_full push_no_node push_filtered_out push_kept log_message_proc
      free_node_proc build_node_proc)

lemma push_delivered:
  "delivered (calls (snd (event_processor_push al Handle ty src dat len m))) = delivered (calls m)"
  by (rule push_cases [where m = m and al = al and ty = ty and src = src and dat = dat and len = len])
    (auto simp add: push_full push_no_node push_filtered_out push_kept log_message_delivered
      free_node_calls build_node_calls delivered_append)

subsection \<open>Invariants of the calls\<close>

lemma process_running:
  assumes "state (proc m) = STATE_RUNNING" and "queue (proc m) = node # rest"
  shows "proc (event_processor_process Handle m) =
           (proc m)\<lparr>queue := rest, queue_size := queue_size (proc m) - 1,
                    events_processed := events_processed (proc m) + 1\<rparr>"
    and "delivered (calls (event_processor_process Handle m)) =
           delivered (calls m) @
           (case on_event (config (proc m)) of None \<Rightarrow> [] | Some cb \<Rightarrow> [event node])"
    and "list_all call_ok (calls (event_processor_process Handle m)) \<longleftrightarrow>
           list_all call_ok (calls m) \<and> (on_event (config (proc m)) \<noteq> None \<longrightarrow> event_ok (event node))"
  using assms
  by (auto simp add: event_processor_process_def Let_def log_message_proc free_node_proc
      free_node_calls log_message_delivered log_message_calls_ok delivered_append
      split: option.split)

lemma process_all_loop_preserves:
  assumes step: "\<And>m. I m \<Longrightarrow> I (event_processor_process Handle m)"
    and run: "process_all_loop m c = Some r"
    and init: "I m"
  shows "I (fst r)"
proof -
  have "I m \<longrightarrow> I (fst r)"
  proof (rule process_all_loop.raw_induct [where P = "\<lambda>m c r. I m \<longrightarrow> I (fst r)", OF _ run])
    fix loop :: "'a mem \<Rightarrow> size_t \<Rightarrow> ('a mem \<times> size_t) option" and m c r
    assume IH: "\<And>m c r. loop m c = Some r \<Longrightarrow> I m \<longrightarrow> I (fst r)"
    assume eq: "(if queue (proc m) \<noteq> [] then loop (event_processor_process Handle m) (c + 1)
                 else Some (m, c)) = Some r"
    show "I m \<longrightarrow> I (fst r)"
    proof (cases "queue (proc m) = []")
      case True
      with eq show ?thesis by auto
    next
      case False
      with eq have "loop (event_processor_process Handle m) (c + 1) = Some r" by simp
      from IH [OF this] step show ?thesis by blast
    qed
  qed
  with init show ?thesis by blast
qed

lemma process_all_preserves:
  assumes step: "\<And>m. I m \<Longrightarrow> I (event_processor_process Handle m)"
    and log: "\<And>m level text. I m \<Longrightarrow> I (log_message m level text)"
    and run: "event_processor_process_all Handle m = Some m'"
    and init: "I m"
  shows "I m'"
proof -
  from run obtain m1 c1 where l: "process_all_loop m 0 = Some (m1, c1)"
    and m': "m' = (if c1 > 0 then log_message m1 ''INFO'' (''Processed '' @ dec (unat c1) @ '' events'')
                   else m1)"
    by (auto simp add: event_processor_process_all_def split: option.splits)
  from process_all_loop_preserves [of I, OF step l init] have "I m1" by simp
  with m' log show ?thesis by simp
qed

lemma clear_loop_proc: "proc (snd (clear_loop q c m)) = proc m"
  by (induction q arbitrary: c m) (simp_all add: free_node_proc)

lemma clear_loop_calls: "calls (snd (clear_loop q c m)) = calls m"
  by (induction q arbitrary: c m) (simp_all add: free_node_calls)

lemma clear_queue_proc:
  "proc (event_processor_clear_queue Handle m) = (proc m)\<lparr>queue := [], queue_size := 0\<rparr>"
  using clear_loop_proc [of "queue (proc m)" 0 m]
  by (simp add: event_processor_clear_queue_def Let_def log_message_proc case_prod_beta)

lemma clear_queue_calls_ok:
  "list_all call_ok (calls (event_processor_clear_queue Handle m)) = list_all call_ok (calls m)"
  using clear_loop_calls [of "queue (proc m)" 0 m]
  by (simp add: event_processor_clear_queue_def Let_def log_message_calls_ok case_prod_beta)

lemma change_state_proc: "proc (change_state ns m) = (proc m)\<lparr>state := ns\<rparr>"
  by (simp add: change_state_def Let_def log_message_proc split: option.split)

lemma change_state_calls_ok:
  "list_all call_ok (calls (change_state ns m)) = list_all call_ok (calls m)"
  by (simp add: change_state_def Let_def log_message_calls_ok split: option.split)

text \<open>The event invariant.\<close>

lemma pushed_event_ok: "event_ok (pushed_event r)"
  by (cases r) (auto simp add: event_ok_def word_greater_zero_iff split: option.split)

lemma log_message_events_ok: "events_ok m \<Longrightarrow> events_ok (log_message m level text)"
  by (simp add: events_ok_def log_message_proc log_message_calls_ok)

lemma push_events_ok:
  assumes "events_ok m"
  shows "events_ok (snd (event_processor_push al Handle ty src dat len m))"
  using assms pushed_event_ok [of "(al, ty, src, dat, len)"]
  by (rule_tac push_cases [where m = m and al = al and ty = ty and src = src and dat = dat and len = len])
    (auto simp add: push_full push_no_node push_filtered_out push_kept events_ok_def
      log_message_proc log_message_calls_ok free_node_proc free_node_calls build_node_proc
      build_node_calls build_node_event)

lemma process_events_ok:
  assumes "events_ok m"
  shows "events_ok (event_processor_process Handle m)"
proof (cases "queue (proc m)")
  case Nil
  then show ?thesis using assms by (simp add: event_processor_process_def)
next
  case (Cons node rest)
  show ?thesis
  proof (cases "state (proc m) = STATE_RUNNING")
    case True
    from process_running [OF True Cons] assms Cons show ?thesis
      by (simp add: events_ok_def)
  next
    case False
    with assms show ?thesis
      by (simp add: process_not_running log_message_events_ok)
  qed
qed

lemma exec_events_ok:
  assumes "events_ok m" and "exec c m = Some m'"
  shows "events_ok m'"
proof (cases c)
  case (Push al ty src dat len)
  with assms push_events_ok [of m al ty src dat len] show ?thesis by auto
next
  case Process
  with assms process_events_ok [of m] show ?thesis by auto
next
  case ProcessAll
  with assms have "event_processor_process_all Handle m = Some m'" by simp
  from process_all_preserves [of events_ok, OF process_events_ok log_message_events_ok this assms(1)]
  show ?thesis .
next
  case Start
  with assms show ?thesis
    by (auto simp add: event_processor_start_def events_ok_def change_state_proc change_state_calls_ok)
next
  case Stop
  with assms show ?thesis
    by (auto simp add: event_processor_stop_def events_ok_def change_state_proc change_state_calls_ok)
next
  case ClearQueue
  with assms show ?thesis
    by (auto simp add: events_ok_def clear_queue_proc clear_queue_calls_ok)
qed

lemma run_events_ok: "events_ok m \<Longrightarrow> run cs m = Some m' \<Longrightarrow> events_ok m'"
proof (induction cs arbitrary: m)
  case Nil
  then show ?case by simp
next
  case (Cons c cs)
  then show ?case by (auto split: option.splits dest: exec_events_ok)
qed

lemma create_events_ok:
  assumes "list_all call_ok (calls m0)" and "event_processor_create pok nok cfg m0 = (Handle, m1)"
  shows "events_ok m1"
  using assms
  by (auto simp add: event_processor_create_def events_ok_def Let_def strdup_def
      log_message_proc log_message_calls_ok case_prod_beta split: option.splits if_splits)

subsection \<open>When processing all events returns\<close>

lemma process_all_loop_running:
  "state (proc m) = STATE_RUNNING \<Longrightarrow>
   process_all_loop m c =
     Some (process_times (length (queue (proc m))) m, c + of_nat (length (queue (proc m))))"
proof (induction "length (queue (proc m))" arbitrary: m c)
  case 0
  then show ?case by (simp add: process_all_loop.simps)
next
  case (Suc n)
  then obtain node rest where q: "queue (proc m) = node # rest"
    by (cases "queue (proc m)") auto
  note p = process_running(1) [OF Suc.prems q]
  from Suc.hyps(2) q have "n = length (queue (proc (event_processor_process Handle m)))"
    by (simp add: p)
  moreover have "state (proc (event_processor_process Handle m)) = STATE_RUNNING"
    using Suc.prems by (simp add: p)
  ultimately have "process_all_loop (event_processor_process Handle m) (c + 1) =
     Some (process_times (length (queue (proc (event_processor_process Handle m))))
             (event_processor_process Handle m),
           c + 1 + of_nat (length (queue (proc (event_processor_process Handle m)))))"
    by (rule Suc.hyps(1))
  then show ?case
    using q by (subst process_all_loop.simps) (simp add: p add.assoc)
qed

lemma process_all_running_returns:
  assumes "state (proc m) = STATE_RUNNING"
  shows "\<exists>m'. event_processor_process_all Handle m = Some m' \<and> queue (proc m') = []"
proof -
  have "queue (proc (process_times k m)) = drop k (queue (proc m))" for k
    using assms
  proof (induction k arbitrary: m)
    case 0
    then show ?case by simp
  next
    case (Suc k)
    show ?case
    proof (cases "queue (proc m)")
      case Nil
      then have "event_processor_process Handle m = m"
        by (simp add: event_processor_process_def)
      with Suc.IH [OF Suc.prems] Nil show ?thesis by simp
    next
      case (Cons node rest)
      note p = process_running(1) [OF Suc.prems Cons]
      have "state (proc (event_processor_process Handle m)) = STATE_RUNNING"
        using Suc.prems by (simp add: p)
      from Suc.IH [OF this] Cons show ?thesis by (simp add: p)
    qed
  qed
  then have "queue (proc (process_times (length (queue (proc m))) m)) = []" by simp
  then show ?thesis
    by (simp add: event_processor_process_all_def process_all_loop_running [OF assms]
        log_message_proc)
qed

lemma process_all_empty_returns:
  "queue (proc m) = [] \<Longrightarrow> event_processor_process_all Handle m = Some m"
  by (simp add: event_processor_process_all_def process_all_loop.simps)

subsection \<open>Contents of the sample processors\<close>

lemma created_sample:
  "event_processor_create True True (Some sample_config) blank = (Handle, created sample_config)"
  by (simp add: created_def event_processor_create_def Let_def case_prod_beta)

lemma created_filter_proc:
  "proc (created filter_config) =
     \<lparr>config = filter_config, name_copy = Some ''demo'', state = STATE_IDLE,
      queue = [], queue_size = 0, events_processed = 0\<rparr>"
  by (simp add: created_def blank_def filter_config_def sample_config_def
      event_processor_create_def strdup_def log_message_def Let_def)

lemma full_queue_proc:
  "proc full_queue =
     \<lparr>config = sample_config, name_copy = Some ''demo'', state = STATE_IDLE,
      queue = [\<lparr>event = \<lparr>type = EVENT_TYPE_DATA, source = Some ''sensor'',
                         data = Some [1, 2, 3], data_len = 3\<rparr>,
                source_copy = Some ''sensor'', data_copy = Some [1, 2, 3]\<rparr>,
               \<lparr>event = \<lparr>type = EVENT_TYPE_CONNECT, source = Some ''link'',
                         data = None, data_len = 0\<rparr>,
                source_copy = Some ''link'', data_copy = None\<rparr>],
      queue_size = 2, events_processed = 0\<rparr>"
proof -
  have nf: "\<not> queue_full idle_with_one"
    by (simp add: queue_full_def idle_with_one_proc sample_config_def word_le_nat_alt)
  have ok: "node_ok all_ok" by (simp add: all_ok_def)
  have f: "on_filter (config (proc idle_with_one)) = None \<and>
           snd (build_node all_ok EVENT_TYPE_CONNECT (Some ''link'') None 0 idle_with_one) =
           snd (build_node all_ok EVENT_TYPE_CONNECT (Some ''link'') None 0 idle_with_one) \<or>
           (\<exists>flt u. on_filter (config (proc idle_with_one)) = Some flt \<and>
              flt (event (fst (build_node all_ok EVENT_TYPE_CONNECT (Some ''link'') None 0 idle_with_one)))
                (user_data idle_with_one) = (True, u) \<and>
              snd (build_node all_ok EVENT_TYPE_CONNECT (Some ''link'') None 0 idle_with_one) =
              (snd (build_node all_ok EVENT_TYPE_CONNECT (Some ''link'') None 0 idle_with_one))
                \<lparr>user_data := u,
                 calls := calls idle_with_one @
                   [(state (proc idle_with_one),
                     FilterCall (event (fst (build_node all_ok EVENT_TYPE_CONNECT (Some ''link'') None 0
                      idle_with_one))))]\<rparr>)"
    by (simp add: idle_with_one_proc sample_config_def)
  show ?thesis
    unfolding full_queue_def push_kept [OF nf ok f]
    by (simp add: log_message_proc idle_with_one_proc)
      (simp add: build_node_def strdup_def all_ok_def Let_def sample_config_def)
qed

subsection \<open>The capacity bound\<close>

text \<open>Word facts for the counter.\<close>

lemma size_inc_below:
  fixes n k :: size_t
  assumes "n < k"
  shows "n + 1 \<le> k" and "unat (n + 1) = Suc (unat n)"
proof -
  show "n + 1 \<le> k" using assms by (rule inc_le)
  from assms have "unat n < unat k" by (simp add: word_less_nat_alt)
  moreover have "unat k < 2 ^ 64" using unsigned_less [of k] by simp
  ultimately have "unat n + 1 < 2 ^ 64" by simp
  then have "unat (n + 1) = unat n + unat (1 :: size_t)"
    by (simp add: unat_add_lem [THEN iffD1])
  then show "unat (n + 1) = Suc (unat n)" by simp
qed

lemma size_dec_positive:
  fixes n k :: size_t
  assumes "unat n = Suc j" and "n \<le> k"
  shows "unat (n - 1) = j" and "n - 1 \<le> k"
proof -
  from assms(1) have nz: "n \<noteq> 0" by (auto simp add: unat_eq_0 [symmetric] simp del: unat_eq_0)
  then show "unat (n - 1) = j" using assms(1) by (simp add: unat_minus_one)
  then have "unat (n - 1) \<le> unat n" using assms(1) by simp
  then have "n - 1 \<le> n" by (simp add: word_le_nat_alt)
  with assms(2) show "n - 1 \<le> k" by simp
qed

lemma log_message_within_capacity:
  "within_capacity m \<Longrightarrow> within_capacity (log_message m level text)"
  by (simp add: within_capacity_def log_message_proc)

lemma push_within_capacity:
  assumes "within_capacity m"
  shows "within_capacity (snd (event_processor_push al Handle ty src dat len m))"
proof -
  from push_proc [of al ty src dat len m] show ?thesis
  proof
    assume "proc (snd (event_processor_push al Handle ty src dat len m)) = proc m"
    with assms show ?thesis by (simp add: within_capacity_def)
  next
    assume a: "\<not> queue_full m \<and> node_ok al \<and>
      proc (snd (event_processor_push al Handle ty src dat len m)) =
        (proc m)\<lparr>queue := queue (proc m) @ [fst (build_node al ty src dat len m)],
                 queue_size := queue_size (proc m) + 1\<rparr>"
    show ?thesis
    proof (cases "max_queue_size (config (proc m)) = 0")
      case True
      with a show ?thesis by (simp add: within_capacity_def)
    next
      case False
      then have pos: "0 < max_queue_size (config (proc m))" by (simp add: word_greater_zero_iff)
      with a have lt: "queue_size (proc m) < max_queue_size (config (proc m))"
        by (auto simp add: queue_full_def)
      from assms False have len: "unat (queue_size (proc m)) = length (queue (proc m))"
        by (simp add: within_capacity_def)
      from size_inc_below [OF lt] len a show ?thesis
        by (simp add: within_capacity_def)
    qed
  qed
qed

lemma process_within_capacity:
  assumes "within_capacity m"
  shows "within_capacity (event_processor_process Handle m)"
proof (cases "queue (proc m)")
  case Nil
  then show ?thesis using assms by (simp add: event_processor_process_def)
next
  case (Cons node rest)
  show ?thesis
  proof (cases "state (proc m) = STATE_RUNNING")
    case False
    with assms show ?thesis
      by (simp add: process_not_running log_message_within_capacity)
  next
    case True
    note p = process_running(1) [OF True Cons]
    show ?thesis
    proof (cases "max_queue_size (config (proc m)) = 0")
      case True
      then show ?thesis by (simp add: within_capacity_def p)
    next
      case False
      with assms Cons have "unat (queue_size (proc m)) = Suc (length rest)"
        and "queue_size (proc m) \<le> max_queue_size (config (proc m))"
        by (simp_all add: within_capacity_def)
      from size_dec_positive [OF this] show ?thesis
        by (simp add: within_capacity_def p)
    qed
  qed
qed

lemma exec_within_capacity:
  assumes "within_capacity m" and "exec c m = Some m'"
  shows "within_capacity m'"
proof (cases c)
  case (Push al ty src dat len)
  with assms push_within_capacity [of m al ty src dat len] show ?thesis by auto
next
  case Process
  with assms process_within_capacity [of m] show ?thesis by auto
next
  case ProcessAll
  with assms have "event_processor_process_all Handle m = Some m'" by simp
  from process_all_preserves [of within_capacity, OF process_within_capacity
      log_message_within_capacity this assms(1)]
  show ?thesis .
next
  case Start
  with assms show ?thesis
    by (auto simp add: event_processor_start_def within_capacity_def change_state_proc)
next
  case Stop
  with assms show ?thesis
    by (auto simp add: event_processor_stop_def within_capacity_def change_state_proc)
next
  case ClearQueue
  with assms show ?thesis
    by (auto simp add: within_capacity_def clear_queue_proc)
qed

lemma create_within_capacity:
  assumes "event_processor_create pok nok cfg m0 = (Handle, m1)"
  shows "within_capacity m1"
  using assms
  by (auto simp add: event_processor_create_def within_capacity_def Let_def strdup_def
      log_message_proc case_prod_beta split: option.splits if_splits)

lemma run_within_capacity: "within_capacity m \<Longrightarrow> run cs m = Some m' \<Longrightarrow> within_capacity m'"
proof (induction cs arbitrary: m)
  case Nil
  then show ?case by simp
next
  case (Cons c cs)
  then show ?case by (auto split: option.splits dest: exec_within_capacity)
qed

subsection \<open>First in, first out\<close>

lemma push_frame:
  "state (proc (snd (event_processor_push al Handle ty src dat len m))) = state (proc m)"
  "config (proc (snd (event_processor_push al Handle ty src dat len m))) = config (proc m)"
  using push_proc [of al ty src dat len m] by auto

lemma push_queue:
  "queue (proc (snd (event_processor_push al Handle ty src dat len m))) = queue (proc m) \<or>
   (\<exists>node. event node = pushed_event (al, ty, src, dat, len) \<and>
      queue (proc (snd (event_processor_push al Handle ty src dat len m))) = queue (proc m) @ [node])"
  using push_proc [of al ty src dat len m] build_node_event [of al ty src dat len m] by auto

lemma push_each_frame:
  assumes "push_each rs m = (oks, m1)"
  shows "state (proc m1) = state (proc m) \<and> config (proc m1) = config (proc m) \<and>
         delivered (calls m1) = delivered (calls m) \<and>
         length (queue (proc m1)) \<le> length (queue (proc m)) + length rs"
  using assms
proof (induction rs arbitrary: m oks)
  case Nil
  then show ?case by simp
next
  case (Cons r rs)
  obtain al ty src dat len where r: "r = (al, ty, src, dat, len)" by (cases r)
  let ?m = "snd (event_processor_push al Handle ty src dat len m)"
  from Cons.prems r obtain oks' where "push_each rs ?m = (oks', m1)"
    by (auto split: prod.splits)
  from Cons.IH [OF this] push_queue [of al ty src dat len m] show ?case
    by (auto simp add: push_frame push_delivered r)
qed

lemma push_each_admitted:
  assumes "push_each rs m = (oks, m1)"
    and "length (queue (proc m1)) = length (queue (proc m)) + length rs"
  shows "map event (queue (proc m1)) = map event (queue (proc m)) @ map pushed_event rs"
  using assms
proof (induction rs arbitrary: m oks)
  case Nil
  then show ?case by simp
next
  case (Cons r rs)
  obtain al ty src dat len where r: "r = (al, ty, src, dat, len)" by (cases r)
  let ?m = "snd (event_processor_push al Handle ty src dat len m)"
  from Cons.prems(1) r obtain oks' where rest: "push_each rs ?m = (oks', m1)"
    by (auto split: prod.splits)
  from push_each_frame [OF rest]
  have le: "length (queue (proc m1)) \<le> length (queue (proc ?m)) + length rs" by simp
  from push_queue [of al ty src dat len m] show ?case
  proof
    assume "queue (proc ?m) = queue (proc m)"
    with le Cons.prems(2) show ?thesis by simp
  next
    assume "\<exists>node. event node = pushed_event (al, ty, src, dat, len) \<and>
      queue (proc ?m) = queue (proc m) @ [node]"
    then obtain node where n: "event node = pushed_event (al, ty, src, dat, len)"
      "queue (proc ?m) = queue (proc m) @ [node]" by blast
    with Cons.prems(2) have "length (queue (proc m1)) = length (queue (proc ?m)) + length rs"
      by simp
    from Cons.IH [OF rest this] n r show ?thesis by simp
  qed
qed

lemma process_times_fifo:
  assumes "state (proc m) = STATE_RUNNING" and "on_event (config (proc m)) = Some cb"
  shows "delivered (calls (process_times k m)) =
           delivered (calls m) @ take k (map event (queue (proc m))) \<and>
         queue (proc (process_times k m)) = drop k (queue (proc m))"
  using assms
proof (induction k arbitrary: m)
  case 0
  then show ?case by simp
next
  case (Suc k)
  show ?case
  proof (cases "queue (proc m)")
    case Nil
    then have "event_processor_process Handle m = m"
      by (simp add: event_processor_process_def)
    with Suc.IH [OF Suc.prems] Nil show ?thesis by simp
  next
    case (Cons node rest)
    note p = process_running(1,2) [OF Suc.prems(1) Cons]
    have "state (proc (event_processor_process Handle m)) = STATE_RUNNING"
      and "on_event (config (proc (event_processor_process Handle m))) = Some cb"
      using Suc.prems by (simp_all add: p)
    from Suc.IH [OF this] show ?thesis
      using Suc.prems(2) Cons by (simp add: p)
  qed
qed

lemma push_true_accepted:
  assumes "fst (event_processor_push al Handle ty src dat len m)"
    and "case on_filter (config (proc m)) of
           None \<Rightarrow> True
         | Some flt \<Rightarrow> fst (flt (event (fst (build_node al ty src dat len m))) (user_data m))"
  shows "proc (snd (event_processor_push al Handle ty src dat len m)) =
           (proc m)\<lparr>queue := queue (proc m) @ [fst (build_node al ty src dat len m)],
                    queue_size := queue_size (proc m) + 1\<rparr>"
proof (rule push_cases [where m = m and al = al and ty = ty and src = src and dat = dat and len = len])
  assume "queue_full m"
  with assms(1) show ?thesis by (simp add: push_full)
next
  assume "\<not> queue_full m" "\<not> node_ok al"
  with assms(1) show ?thesis by (simp add: push_no_node)
next
  fix flt u
  assume "on_filter (config (proc m)) = Some flt"
    "flt (event (fst (build_node al ty src dat len m))) (user_data m) = (False, u)"
  with assms(2) show ?thesis by simp
next
  fix m1
  assume k: "\<not> queue_full m" "node_ok al"
    "on_filter (config (proc m)) = None \<and> m1 = snd (build_node al ty src dat len m) \<or>
       (\<exists>flt u. on_filter (config (proc m)) = Some flt \<and>
          flt (event (fst (build_node al ty src dat len m))) (user_data m) = (True, u) \<and>
          m1 = (snd (build_node al ty src dat len m))
                 \<lparr>user_data := u,
                  calls := calls m @
                    [(state (proc m), FilterCall (event (fst (build_node al ty src dat len m))))]\<rparr>)"
  show ?thesis
    by (simp add: push_kept [OF k] log_message_proc)
qed

lemma push_each_accepted:
  assumes "push_each rs m = (oks, m1)" and "\<forall>ok \<in> set oks. ok" and "none_filtered rs m"
  shows "map event (queue (proc m1)) = map event (queue (proc m)) @ map pushed_event rs"
  using assms
proof (induction rs arbitrary: m oks)
  case Nil
  then show ?case by simp
next
  case (Cons r rs)
  obtain al ty src dat len where r: "r = (al, ty, src, dat, len)" by (cases r)
  let ?m = "snd (event_processor_push al Handle ty src dat len m)"
  from Cons.prems(1) r obtain oks' where rest: "push_each rs ?m = (oks', m1)"
    and oks: "oks = fst (event_processor_push al Handle ty src dat len m) # oks'"
    by (auto split: prod.splits)
  from Cons.prems(2) oks have ok: "fst (event_processor_push al Handle ty src dat len m)"
    and oks': "\<forall>ok \<in> set oks'. ok" by auto
  from Cons.prems(3) r have acc: "case on_filter (config (proc m)) of
           None \<Rightarrow> True
         | Some flt \<Rightarrow> fst (flt (event (fst (build_node al ty src dat len m))) (user_data m))"
    and nf: "none_filtered rs ?m" by simp_all
  note p = push_true_accepted [OF ok acc]
  from Cons.IH [OF rest oks' nf] show ?case
    by (simp add: p r build_node_event del: pushed_event.simps)
qed



subsection \<open>Facts about the sample processors\<close>

lemma idle_with_one_run:
  "run [Push all_ok EVENT_TYPE_DATA (Some ''sensor'') (Some [1, 2, 3]) 3] (created sample_config) =
     Some idle_with_one"
  by (simp add: idle_with_one_def)

lemma full_queue_exec:
  "exec (Push all_ok EVENT_TYPE_CONNECT (Some ''link'') None 0) idle_with_one = Some full_queue"
  by (simp add: full_queue_def)

lemma blank_calls: "calls blank = []"
  by (simp add: blank_def)

lemma sample_config_fields:
  "max_queue_size sample_config = 2" "on_filter sample_config = None"
  "enable_logging sample_config" "name sample_config = Some ''demo''"
  "on_event sample_config = Some (\<lambda>e u. u + 1)"
  by (simp_all add: sample_config_def)

lemma filter_config_fields:
  "max_queue_size filter_config = 2"
  "on_filter filter_config = Some (\<lambda>e u. (type e \<noteq> EVENT_TYPE_ERROR, u))"
  by (simp_all add: filter_config_def sample_config_def)

lemma full_queue_is_full: "queue_full full_queue"
  by (simp add: queue_full_def full_queue_proc sample_config_fields)

lemma created_not_full: "\<not> queue_full (created sample_config)"
  by (simp add: queue_full_def created_sample_proc sample_config_fields)

lemma idle_with_one_within: "within_capacity idle_with_one"
  by (simp add: within_capacity_def idle_with_one_proc sample_config_fields word_le_nat_alt)

lemma full_queue_within: "within_capacity full_queue"
  by (simp add: within_capacity_def full_queue_proc sample_config_fields)

lemma push_unfiltered:
  assumes "\<not> queue_full m" "node_ok al" "on_filter (config (proc m)) = None"
  shows "fst (event_processor_push al Handle ty src dat len m) = True"
    and "proc (snd (event_processor_push al Handle ty src dat len m)) =
           (proc m)\<lparr>queue := queue (proc m) @ [fst (build_node al ty src dat len m)],
                    queue_size := queue_size (proc m) + 1\<rparr>"
  using assms push_kept [OF assms(1,2), of "snd (build_node al ty src dat len m)" ty src dat len]
  by (simp_all add: log_message_proc)

lemma change_state_delivered: "delivered (calls (change_state ns m)) = delivered (calls m)"
  by (simp add: change_state_def Let_def log_message_delivered delivered_append split: option.split)

lemma running_proc:
  "proc running =
     \<lparr>config = sample_config, name_copy = Some ''demo'', state = STATE_RUNNING,
      queue = [], queue_size = 0, events_processed = 0\<rparr>"
  by (simp add: running_def event_processor_start_def change_state_proc created_sample_proc)

lemma running_delivered: "delivered (calls running) = []"
  by (simp add: running_def event_processor_start_def change_state_delivered created_def
      event_processor_create_def Let_def case_prod_beta log_message_delivered strdup_def blank_def
      split: option.split)

lemma running_pushes:
  "fst (push_each [first_request, error_request] running) = [True, True]"
  "none_filtered [first_request, error_request] running"
proof -
  let ?m1 = "snd (event_processor_push all_ok Handle EVENT_TYPE_DATA (Some ''sensor'')
                    (Some [1, 2, 3]) 3 running)"
  have ok: "node_ok all_ok" by (simp add: all_ok_def)
  have nf0: "\<not> queue_full running" and f0: "on_filter (config (proc running)) = None"
    by (simp_all add: queue_full_def running_proc sample_config_fields)
  note p1 = push_unfiltered [OF nf0 ok f0, of EVENT_TYPE_DATA "Some ''sensor''" "Some [1, 2, 3]" 3]
  have nf1: "\<not> queue_full ?m1" and f1: "on_filter (config (proc ?m1)) = None"
    by (simp_all add: queue_full_def p1 running_proc sample_config_fields word_le_nat_alt)
  note p2 = push_unfiltered [OF nf1 ok f1, of EVENT_TYPE_ERROR "Some ''sensor''" None 0]
  show "fst (push_each [first_request, error_request] running) = [True, True]"
    using p1(1) p2(1)
    by (simp add: first_request_def error_request_def case_prod_beta)
  show "none_filtered [first_request, error_request] running"
    using f0 f1 by (simp add: first_request_def error_request_def)
qed

lemma running_with_filter_proc:
  "proc running_with_filter =
     \<lparr>config = filter_config, name_copy = Some ''demo'', state = STATE_RUNNING,
      queue = [], queue_size = 0, events_processed = 0\<rparr>"
  by (simp add: running_with_filter_def event_processor_start_def change_state_proc
      created_filter_proc)

lemma running_with_filter_delivered: "delivered (calls running_with_filter) = []"
  by (simp add: running_with_filter_def event_processor_start_def change_state_delivered
      created_def event_processor_create_def Let_def case_prod_beta log_message_delivered
      strdup_def blank_def split: option.split)

lemma filter_config_on_event: "on_event filter_config = Some (\<lambda>e u. u + 1)"
  by (simp add: filter_config_def sample_config_def)

lemma running_with_filter_pushes:
  "fst (push_each [first_request, second_request] running_with_filter) = [True, True]"
  "none_filtered [first_request, second_request] running_with_filter"
proof -
  let ?m0 = running_with_filter
  let ?m1 = "snd (event_processor_push all_ok Handle EVENT_TYPE_DATA (Some ''sensor'')
                    (Some [1, 2, 3]) 3 ?m0)"
  have ok: "node_ok all_ok" by (simp add: all_ok_def)
  have nf0: "\<not> queue_full ?m0"
    by (simp add: queue_full_def running_with_filter_proc filter_config_fields)
  have r0: "fst (event_processor_push all_ok Handle EVENT_TYPE_DATA (Some ''sensor'')
                    (Some [1, 2, 3]) 3 ?m0)"
    using push_returns_false_iff [of all_ok EVENT_TYPE_DATA "Some ''sensor''" "Some [1, 2, 3]" 3 ?m0]
      nf0 ok by simp
  have a0: "case on_filter (config (proc ?m0)) of
           None \<Rightarrow> True
         | Some flt \<Rightarrow>
             fst (flt (event (fst (build_node all_ok EVENT_TYPE_DATA (Some ''sensor'')
                    (Some [1, 2, 3]) 3 ?m0))) (user_data ?m0))"
    by (simp add: running_with_filter_proc filter_config_fields build_node_event)
  note p0 = push_true_accepted [OF r0 a0]
  have nf1: "\<not> queue_full ?m1"
    by (simp add: queue_full_def p0 running_with_filter_proc filter_config_fields word_le_nat_alt)
  have r1: "fst (event_processor_push all_ok Handle EVENT_TYPE_CONNECT (Some ''link'') None 0 ?m1)"
    using push_returns_false_iff [of all_ok EVENT_TYPE_CONNECT "Some ''link''" None 0 ?m1]
      nf1 ok by simp
  have a1: "case on_filter (config (proc ?m1)) of
           None \<Rightarrow> True
         | Some flt \<Rightarrow>
             fst (flt (event (fst (build_node all_ok EVENT_TYPE_CONNECT (Some ''link'') None 0 ?m1)))
                    (user_data ?m1))"
    by (simp add: p0 running_with_filter_proc filter_config_fields build_node_event)
  show "fst (push_each [first_request, second_request] running_with_filter) = [True, True]"
    using r0 r1 by (simp add: first_request_def second_request_def case_prod_beta)
  show "none_filtered [first_request, second_request] running_with_filter"
    using a0 a1 by (simp add: first_request_def second_request_def)
qed


section \<open>The claims\<close>

subsection \<open>C1: processing all events while not running\<close>

text \<open>
  C1. The claim fails on the code. A processor that was created and given one event, and
  never started, is Idle with one event queued; \<^verbatim>\<open>event_processor_process_all\<close> on it never
  returns: each turn of its loop calls \<^verbatim>\<open>event_processor_process\<close>, which logs the warning
  and dequeues nothing, so the loop condition stays true.
\<close>

theorem process_all_idle_never_returns:
  "event_processor_get_state Handle idle_with_one = ''IDLE'' \<and>
   event_processor_queue_size Handle idle_with_one = 1 \<and>
   event_processor_process_all Handle idle_with_one = None"
proof -
  have "state (proc idle_with_one) \<noteq> STATE_RUNNING" "queue (proc idle_with_one) \<noteq> []"
    by (simp_all add: idle_with_one_proc state_consts_distinct)
  then have "event_processor_process_all Handle idle_with_one = None"
    by (rule process_all_not_running_diverges)
  then show ?thesis
    by (simp add: event_processor_get_state_def event_processor_queue_size_def
        idle_with_one_proc state_to_string_def)
qed

subsection \<open>C2: the event invariant\<close>

text \<open>
  C2. The event that push constructs satisfies the invariant for every type, source, data
  pointer, length and allocator answer: its payload is set only when the caller's pointer is
  non-null and the length is positive. Every call keeps the invariant for the events of the
  queued nodes and for the events handed to the filter and consume callbacks, so it holds in
  every memory reached from a successful create by any sequence of calls.
\<close>

theorem event_invariant:
  "event_ok (event (fst (build_node al ty src dat len m))) \<and>
   (events_ok m \<and> exec c m = Some m' \<longrightarrow> events_ok m') \<and>
   (list_all call_ok (calls m0) \<and> event_processor_create pok nok cfg m0 = (Handle, m1) \<and>
    run cs m1 = Some m2 \<longrightarrow> events_ok m2)"
  using build_node_event [of al ty src dat len m] pushed_event_ok [of "(al, ty, src, dat, len)"]
    exec_events_ok [of m c m'] create_events_ok [of m0 pok nok cfg m1] run_events_ok [of m1 cs m2]
  by auto

theorem event_invariant_witness:
  "event_ok (event (fst (build_node all_ok EVENT_TYPE_DATA None None 5 idle_with_one))) \<and>
   data (event (fst (build_node all_ok EVENT_TYPE_DATA None None 5 idle_with_one))) = None \<and>
   data_len (event (fst (build_node all_ok EVENT_TYPE_DATA None None 5 idle_with_one))) = 5 \<and>
   list_all call_ok (calls blank) \<and>
   event_processor_create True True (Some sample_config) blank = (Handle, created sample_config) \<and>
   run [Push all_ok EVENT_TYPE_DATA (Some ''sensor'') (Some [1, 2, 3]) 3] (created sample_config) =
     Some idle_with_one \<and>
   events_ok idle_with_one \<and>
   exec (Push all_ok EVENT_TYPE_CONNECT (Some ''link'') None 0) idle_with_one = Some full_queue \<and>
   events_ok full_queue"
proof -
  note inst = event_invariant [where al = all_ok and ty = EVENT_TYPE_DATA and src = None
      and dat = None and len = 5 and m = idle_with_one and m' = full_queue and ?m0.0 = blank and pok = True and nok = True
      and cfg = "Some sample_config" and ?m1.0 = "created sample_config"
      and cs = "[Push all_ok EVENT_TYPE_DATA (Some ''sensor'') (Some [1, 2, 3]) 3]"
      and ?m2.0 = idle_with_one
      and c = "Push all_ok EVENT_TYPE_CONNECT (Some ''link'') None 0"]
  have one: "events_ok idle_with_one"
    using inst created_sample idle_with_one_run blank_calls by simp
  have two: "events_ok full_queue"
    using inst one full_queue_exec by simp
  have b: "data (event (fst (build_node all_ok EVENT_TYPE_DATA None None 5 idle_with_one))) = None"
    "data_len (event (fst (build_node all_ok EVENT_TYPE_DATA None None 5 idle_with_one))) = 5"
    by (simp_all add: build_node_event)
  show ?thesis
    using inst one two b created_sample idle_with_one_run
      full_queue_exec blank_calls
    by simp
qed

subsection \<open>C3: when push fails\<close>

text \<open>
  C3, as the code has it. \<^verbatim>\<open>event_processor_push\<close> on a live handle returns false exactly
  when the capacity test fails or the node cannot be allocated. In both cases the processor
  object is unchanged (no event is admitted), no block of the call stays allocated (nothing
  has been copied at that point), and the memory differs at most by the warning given to the
  log hook in the capacity case. A source or payload copy that cannot be allocated does not
  make push fail.
\<close>

theorem push_fails_only_on_capacity_or_node:
  "(fst (event_processor_push al Handle ty src dat len m) = False \<longleftrightarrow>
      queue_full m \<or> \<not> node_ok al) \<and>
   (fst (event_processor_push al Handle ty src dat len m) = False \<longrightarrow>
      proc (snd (event_processor_push al Handle ty src dat len m)) = proc m \<and>
      live_blocks (snd (event_processor_push al Handle ty src dat len m)) = live_blocks m \<and>
      snd (event_processor_push al Handle ty src dat len m) =
        (if queue_full m
         then log_message m ''WARN''
                (''Queue full ('' @ dec (unat (queue_size (proc m))) @ '' items)'')
         else m))"
  by (rule push_cases [where m = m and al = al and ty = ty and src = src and dat = dat and len = len])
    (simp_all add: push_full push_no_node push_filtered_out push_kept log_message_proc
      log_message_live)

theorem push_fails_only_on_capacity_or_node_witness:
  "queue_full full_queue \<and>
   fst (event_processor_push all_ok Handle EVENT_TYPE_DATA None None 0 full_queue) = False \<and>
   proc (snd (event_processor_push all_ok Handle EVENT_TYPE_DATA None None 0 full_queue)) =
     proc full_queue \<and>
   live_blocks (snd (event_processor_push all_ok Handle EVENT_TYPE_DATA None None 0 full_queue)) =
     live_blocks full_queue \<and>
   \<not> queue_full (created sample_config) \<and> \<not> node_ok node_fails \<and>
   event_processor_push node_fails Handle EVENT_TYPE_DATA (Some ''sensor'') (Some [1, 2, 3]) 3
     (created sample_config) = (False, created sample_config)"
proof -
  have nf: "\<not> node_ok node_fails" by (simp add: node_fails_def)
  note a = push_fails_only_on_capacity_or_node
    [of all_ok EVENT_TYPE_DATA None None 0 full_queue]
  note b = push_fails_only_on_capacity_or_node
    [of node_fails EVENT_TYPE_DATA "Some ''sensor''" "Some [1, 2, 3]" 3 "created sample_config"]
  from a full_queue_is_full have 1:
    "fst (event_processor_push all_ok Handle EVENT_TYPE_DATA None None 0 full_queue) = False"
    by blast
  from b nf have 2:
    "fst (event_processor_push node_fails Handle EVENT_TYPE_DATA (Some ''sensor'') (Some [1, 2, 3]) 3
       (created sample_config)) = False"
    by blast
  from b 2 created_not_full have 3:
    "snd (event_processor_push node_fails Handle EVENT_TYPE_DATA (Some ''sensor'') (Some [1, 2, 3]) 3
       (created sample_config)) = created sample_config"
    by simp
  from 2 3 have 4: "event_processor_push node_fails Handle EVENT_TYPE_DATA (Some ''sensor'')
      (Some [1, 2, 3]) 3 (created sample_config) = (False, created sample_config)"
    by (simp add: prod_eq_iff)
  from a 1 4 nf full_queue_is_full created_not_full show ?thesis
    by (simp add: log_message_proc log_message_live)
qed

text \<open>
  C3, as the claim states it, fails: with the copy of the source refused by the allocator,
  push on a fresh processor returns true and queues the event with no source; with the copy
  of the payload refused, it returns true and queues the event with no payload and the
  caller's length.
\<close>

theorem push_admits_event_when_copy_fails:
  "\<not> source_ok source_fails \<and>
   fst (event_processor_push source_fails Handle EVENT_TYPE_DATA (Some ''sensor'') None 0
          (created sample_config)) = True \<and>
   map event (queue (proc (snd (event_processor_push source_fails Handle EVENT_TYPE_DATA
          (Some ''sensor'') None 0 (created sample_config))))) =
     [\<lparr>type = EVENT_TYPE_DATA, source = None, data = None, data_len = 0\<rparr>] \<and>
   \<not> data_ok data_fails \<and>
   fst (event_processor_push data_fails Handle EVENT_TYPE_DATA (Some ''sensor'') (Some [1, 2, 3]) 3
          (created sample_config)) = True \<and>
   map event (queue (proc (snd (event_processor_push data_fails Handle EVENT_TYPE_DATA
          (Some ''sensor'') (Some [1, 2, 3]) 3 (created sample_config))))) =
     [\<lparr>type = EVENT_TYPE_DATA, source = Some ''sensor'', data = None, data_len = 3\<rparr>]"
  by (simp add: source_fails_def data_fails_def event_processor_push_def created_sample_proc
      sample_config_fields build_node_def strdup_def log_message_proc Let_def)

subsection \<open>C4: first in, first out\<close>

text \<open>
  C4. On a running processor with a consume callback, take any sequence of pushes that all
  return true and of which none is filtered (at each push no filter is configured, or the
  filter answers true on the candidate event). Then every push has queued its event, and \<open>k\<close>
  successive calls of \<^verbatim>\<open>event_processor_process\<close> hand the consume callback the first \<open>k\<close>
  events of: the events that were already queued, then the pushed events in the order of the
  pushes. As many calls as there are queued events deliver all of them and empty the queue.
\<close>

theorem fifo_delivery:
  assumes "state (proc m) = STATE_RUNNING"
    and "on_event (config (proc m)) = Some cb"
    and "push_each rs m = (oks, m1)"
    and "\<forall>ok \<in> set oks. ok"
    and "none_filtered rs m"
  shows "delivered (calls (process_times k m1)) =
           delivered (calls m) @ take k (map event (queue (proc m)) @ map pushed_event rs) \<and>
         length (queue (proc m1)) = length (queue (proc m)) + length rs \<and>
         delivered (calls (process_times (length (queue (proc m1))) m1)) =
           delivered (calls m) @ map event (queue (proc m)) @ map pushed_event rs \<and>
         queue (proc (process_times (length (queue (proc m1))) m1)) = []"
proof -
  from push_each_frame [OF assms(3)] assms(1,2)
  have run: "state (proc m1) = STATE_RUNNING" and hook: "on_event (config (proc m1)) = Some cb"
    and d: "delivered (calls m1) = delivered (calls m)"
    by simp_all
  note q = push_each_accepted [OF assms(3,4,5)]
  from arg_cong [OF q, of length]
  have len: "length (queue (proc m1)) = length (queue (proc m)) + length rs"
    by simp
  from process_times_fifo [OF run hook, of k]
    process_times_fifo [OF run hook, of "length (queue (proc m1))"] len
  show ?thesis
    by (simp add: d q [symmetric])
qed

theorem fifo_delivery_witness:
  "state (proc running_with_filter) = STATE_RUNNING \<and>
   on_event (config (proc running_with_filter)) = on_event filter_config \<and>
   on_event filter_config \<noteq> None \<and>
   on_filter (config (proc running_with_filter)) \<noteq> None \<and>
   queue (proc running_with_filter) = [] \<and>
   fst (push_each [first_request, second_request] running_with_filter) = [True, True] \<and>
   none_filtered [first_request, second_request] running_with_filter \<and>
   length (queue (proc (snd (push_each [first_request, second_request] running_with_filter)))) = 2 \<and>
   delivered (calls (process_times 1
       (snd (push_each [first_request, second_request] running_with_filter)))) =
     [\<lparr>type = EVENT_TYPE_DATA, source = Some ''sensor'', data = Some [1, 2, 3], data_len = 3\<rparr>] \<and>
   delivered (calls (process_times 2
       (snd (push_each [first_request, second_request] running_with_filter)))) =
     [\<lparr>type = EVENT_TYPE_DATA, source = Some ''sensor'', data = Some [1, 2, 3], data_len = 3\<rparr>,
      \<lparr>type = EVENT_TYPE_CONNECT, source = Some ''link'', data = None, data_len = 0\<rparr>] \<and>
   queue (proc (process_times 2
       (snd (push_each [first_request, second_request] running_with_filter)))) = [] \<and>
   state (proc running) = STATE_RUNNING \<and>
   on_filter (config (proc running)) = None \<and>
   fst (push_each [first_request, error_request] running) = [True, True] \<and>
   delivered (calls (process_times 2 (snd (push_each [first_request, error_request] running)))) =
     [\<lparr>type = EVENT_TYPE_DATA, source = Some ''sensor'', data = Some [1, 2, 3], data_len = 3\<rparr>,
      \<lparr>type = EVENT_TYPE_ERROR, source = Some ''sensor'', data = None, data_len = 0\<rparr>]"
proof -
  have st': "state (proc running) = STATE_RUNNING"
    and hook': "on_event (config (proc running)) = Some (\<lambda>e u. u + 1)"
    and flt': "on_filter (config (proc running)) = None"
    and q': "queue (proc running) = []"
    by (simp_all add: running_proc sample_config_fields)
  have e': "push_each [first_request, error_request] running =
      (fst (push_each [first_request, error_request] running),
       snd (push_each [first_request, error_request] running))"
    by simp
  have all': "\<forall>ok \<in> set (fst (push_each [first_request, error_request] running)). ok"
    by (simp add: running_pushes)
  have ev': "pushed_event error_request =
      \<lparr>type = EVENT_TYPE_ERROR, source = Some ''sensor'', data = None, data_len = 0\<rparr>"
    by (simp add: error_request_def all_ok_def)
  let ?rs = "[first_request, second_request]"
  let ?m = running_with_filter
  have st: "state (proc ?m) = STATE_RUNNING"
    and hook: "on_event (config (proc ?m)) = Some (\<lambda>e u. u + 1)"
    and flt: "on_filter (config (proc ?m)) \<noteq> None"
    and q: "queue (proc ?m) = []"
    by (simp_all add: running_with_filter_proc filter_config_fields filter_config_on_event)
  have e: "push_each ?rs ?m = (fst (push_each ?rs ?m), snd (push_each ?rs ?m))"
    by simp
  have all: "\<forall>ok \<in> set (fst (push_each ?rs ?m)). ok"
    by (simp add: running_with_filter_pushes)
  note nf = running_with_filter_pushes(2)
  have ev: "pushed_event first_request =
      \<lparr>type = EVENT_TYPE_DATA, source = Some ''sensor'', data = Some [1, 2, 3], data_len = 3\<rparr>"
    "pushed_event second_request =
      \<lparr>type = EVENT_TYPE_CONNECT, source = Some ''link'', data = None, data_len = 0\<rparr>"
    by (simp_all add: first_request_def second_request_def all_ok_def)
  note one = fifo_delivery [OF st hook e all nf, of 1]
  note two = fifo_delivery [OF st hook e all nf, of 2]
  from one have 1: "delivered (calls (process_times 1 (snd (push_each ?rs ?m)))) =
      [\<lparr>type = EVENT_TYPE_DATA, source = Some ''sensor'', data = Some [1, 2, 3], data_len = 3\<rparr>]"
    by (simp add: running_with_filter_delivered q ev)
  from two have len: "length (queue (proc (snd (push_each ?rs ?m)))) = 2"
    by (simp add: q)
  from two have 2: "delivered (calls (process_times 2 (snd (push_each ?rs ?m)))) =
      [\<lparr>type = EVENT_TYPE_DATA, source = Some ''sensor'', data = Some [1, 2, 3], data_len = 3\<rparr>,
       \<lparr>type = EVENT_TYPE_CONNECT, source = Some ''link'', data = None, data_len = 0\<rparr>]"
    by (simp add: running_with_filter_delivered q ev)
  from two len have 3: "queue (proc (process_times 2 (snd (push_each ?rs ?m)))) = []"
    by simp
  from fifo_delivery [OF st' hook' e' all' running_pushes(2), of 2]
  have 4: "delivered (calls (process_times 2 (snd (push_each [first_request, error_request] running)))) =
     [\<lparr>type = EVENT_TYPE_DATA, source = Some ''sensor'', data = Some [1, 2, 3], data_len = 3\<rparr>,
      \<lparr>type = EVENT_TYPE_ERROR, source = Some ''sensor'', data = None, data_len = 0\<rparr>]"
    by (simp add: running_delivered q' ev ev')
  from 1 2 3 4 len st hook flt q nf running_with_filter_pushes(1) st' flt' running_pushes(1)
  show ?thesis
    by (simp add: filter_config_on_event)
qed

subsection \<open>C5: the capacity bound\<close>

text \<open>
  C5. With capacity \<open>K > 0\<close>, a counter that counts the queue and \<open>K\<close> events queued, a push
  (no filter configured) returns false and leaves \<^verbatim>\<open>event_processor_queue_size\<close> at \<open>K\<close> and
  the queue as it was. When the node can be allocated, push returns false exactly when a
  capacity is set and the counter has reached it. Every call keeps the capacity bound, and
  the bound holds in every memory reached from a successful create.
\<close>

theorem capacity_bound:
  "(max_queue_size (config (proc m)) = K \<and> 0 < K \<and> within_capacity m \<and>
    length (queue (proc m)) = unat K \<and> on_filter (config (proc m)) = None \<longrightarrow>
      fst (event_processor_push al Handle ty src dat len m) = False \<and>
      event_processor_queue_size Handle (snd (event_processor_push al Handle ty src dat len m)) = K \<and>
      queue (proc (snd (event_processor_push al Handle ty src dat len m))) = queue (proc m)) \<and>
   (node_ok al \<longrightarrow>
      (fst (event_processor_push al Handle ty src dat len m) = False \<longleftrightarrow>
         0 < max_queue_size (config (proc m)) \<and>
         max_queue_size (config (proc m)) \<le> queue_size (proc m))) \<and>
   (within_capacity m \<and> exec c m = Some m' \<longrightarrow> within_capacity m') \<and>
   (event_processor_create pok nok cfg m0 = (Handle, m1) \<and> run cs m1 = Some m2 \<longrightarrow>
      within_capacity m2)"
proof (intro conjI impI)
  assume a: "max_queue_size (config (proc m)) = K \<and> 0 < K \<and> within_capacity m \<and>
    length (queue (proc m)) = unat K \<and> on_filter (config (proc m)) = None"
  then have "unat (queue_size (proc m)) = unat K"
    by (auto simp add: within_capacity_def)
  then have sz: "queue_size (proc m) = K" by (simp add: word_unat_eq_iff)
  with a have full: "queue_full m" by (simp add: queue_full_def)
  show "fst (event_processor_push al Handle ty src dat len m) = False"
    by (simp add: push_full [OF full])
  show "event_processor_queue_size Handle (snd (event_processor_push al Handle ty src dat len m)) = K"
    by (simp add: push_full [OF full] event_processor_queue_size_def log_message_proc sz)
  show "queue (proc (snd (event_processor_push al Handle ty src dat len m))) = queue (proc m)"
    by (simp add: push_full [OF full] log_message_proc)
next
  assume "node_ok al"
  then show "fst (event_processor_push al Handle ty src dat len m) = False \<longleftrightarrow>
         0 < max_queue_size (config (proc m)) \<and>
         max_queue_size (config (proc m)) \<le> queue_size (proc m)"
    using push_returns_false_iff [of al ty src dat len m] by (simp add: queue_full_def)
next
  assume "within_capacity m \<and> exec c m = Some m'"
  then show "within_capacity m'" by (blast intro: exec_within_capacity)
next
  assume a: "event_processor_create pok nok cfg m0 = (Handle, m1) \<and> run cs m1 = Some m2"
  from a create_within_capacity [of pok nok cfg m0 m1] run_within_capacity [of m1 cs m2]
  show "within_capacity m2"
    by blast
qed

theorem capacity_bound_witness:
  "max_queue_size (config (proc full_queue)) = 2 \<and> (0 :: size_t) < 2 \<and>
   within_capacity full_queue \<and>
   length (queue (proc full_queue)) = unat (2 :: size_t) \<and>
   on_filter (config (proc full_queue)) = None \<and>
   fst (event_processor_push all_ok Handle EVENT_TYPE_DATA None None 0 full_queue) = False \<and>
   event_processor_queue_size Handle
     (snd (event_processor_push all_ok Handle EVENT_TYPE_DATA None None 0 full_queue)) = 2 \<and>
   queue (proc (snd (event_processor_push all_ok Handle EVENT_TYPE_DATA None None 0 full_queue))) =
     queue (proc full_queue) \<and>
   node_ok all_ok \<and>
   within_capacity idle_with_one \<and>
   exec (Push all_ok EVENT_TYPE_CONNECT (Some ''link'') None 0) idle_with_one = Some full_queue \<and>
   event_processor_create True True (Some sample_config) blank = (Handle, created sample_config) \<and>
   run [Push all_ok EVENT_TYPE_DATA (Some ''sensor'') (Some [1, 2, 3]) 3] (created sample_config) =
     Some idle_with_one"
proof -
  have h: "max_queue_size (config (proc full_queue)) = 2" "(0 :: size_t) < 2"
    "length (queue (proc full_queue)) = unat (2 :: size_t)"
    "on_filter (config (proc full_queue)) = None" "node_ok all_ok"
    by (simp_all add: full_queue_proc sample_config_fields all_ok_def)
  note inst = capacity_bound [where m = full_queue and K = 2 and al = all_ok
      and ty = EVENT_TYPE_DATA and src = None and dat = None and len = 0
      and c = "Push all_ok EVENT_TYPE_CONNECT (Some ''link'') None 0" and m' = full_queue
      and pok = True and nok = True and cfg = "Some sample_config" and ?m0.0 = blank
      and ?m1.0 = "created sample_config"
      and cs = "[Push all_ok EVENT_TYPE_DATA (Some ''sensor'') (Some [1, 2, 3]) 3]"
      and ?m2.0 = idle_with_one]
  from inst h full_queue_within idle_with_one_within full_queue_exec created_sample
    idle_with_one_run
  show ?thesis by simp
qed

subsection \<open>C6: a filtered push\<close>

text \<open>
  C6. When the capacity test passes, the node is allocated, a filter is configured and it
  answers false on the candidate event, \<^verbatim>\<open>event_processor_push\<close> returns true and leaves the
  processor object as it was, so the queue and \<^verbatim>\<open>event_processor_queue_size\<close> are unchanged;
  the blocks taken for the candidate are all freed (the number of live blocks is what it was);
  the consume callback is not called (the calls made are the filter call and the debug log
  entry); and the return value is the one a push gives under any other filter setting, so the
  caller cannot tell a filtered push from a queued one by it.
\<close>

theorem push_filtered_returns_true:
  assumes "\<not> queue_full m" and "node_ok al"
    and "on_filter (config (proc m)) = Some flt"
    and "\<not> fst (flt (event (fst (build_node al ty src dat len m))) (user_data m))"
  shows "fst (event_processor_push al Handle ty src dat len m) = True \<and>
         proc (snd (event_processor_push al Handle ty src dat len m)) = proc m \<and>
         event_processor_queue_size Handle (snd (event_processor_push al Handle ty src dat len m)) =
           event_processor_queue_size Handle m \<and>
         live_blocks (snd (event_processor_push al Handle ty src dat len m)) = live_blocks m \<and>
         delivered (calls (snd (event_processor_push al Handle ty src dat len m))) =
           delivered (calls m) \<and>
         calls (snd (event_processor_push al Handle ty src dat len m)) =
           calls
             (log_message
                (m\<lparr>calls := calls m @ [(state (proc m), FilterCall (event (fst (build_node al ty src dat len m))))]\<rparr>)
                ''DEBUG'' ''Event filtered out'') \<and>
         (\<forall>flt'. fst (event_processor_push al Handle ty src dat len
                        (m\<lparr>proc := (proc m)\<lparr>config := (config (proc m))\<lparr>on_filter := flt'\<rparr>\<rparr>\<rparr>)) = True)"
proof -
  let ?node = "fst (build_node al ty src dat len m)"
  obtain u where r: "flt (event ?node) (user_data m) = (False, u)"
    using assms(4) by (cases "flt (event ?node) (user_data m)") auto
  note eq = push_filtered_out [OF assms(1-3) r]
  have live: "live_blocks (snd (event_processor_push al Handle ty src dat len m)) = live_blocks m"
    unfolding eq by (simp add: build_node_released log_message_live)
  have cs: "calls (snd (event_processor_push al Handle ty src dat len m)) =
           calls (log_message (m\<lparr>calls := calls m @ [(state (proc m), FilterCall (event ?node))]\<rparr>)
                ''DEBUG'' ''Event filtered out'')"
    unfolding eq by (simp add: free_node_calls log_message_def build_node_proc split: option.split)
  have any: "fst (event_processor_push al Handle ty src dat len
                        (m\<lparr>proc := (proc m)\<lparr>config := (config (proc m))\<lparr>on_filter := flt'\<rparr>\<rparr>\<rparr>)) = True"
    for flt'
    using assms(1,2) push_returns_false_iff
      [of al ty src dat len "m\<lparr>proc := (proc m)\<lparr>config := (config (proc m))\<lparr>on_filter := flt'\<rparr>\<rparr>\<rparr>"]
    by (auto simp add: queue_full_def)
  show ?thesis
    using live cs any push_delivered [of al ty src dat len m]
    by (simp add: eq free_node_proc log_message_proc build_node_proc event_processor_queue_size_def)
qed

theorem push_filtered_returns_true_witness:
  "\<not> queue_full (created filter_config) \<and> node_ok all_ok \<and>
   on_filter (config (proc (created filter_config))) = on_filter filter_config \<and>
   fst (event_processor_push all_ok Handle EVENT_TYPE_ERROR (Some ''sensor'') (Some [1, 2, 3]) 3
          (created filter_config)) = True \<and>
   proc (snd (event_processor_push all_ok Handle EVENT_TYPE_ERROR (Some ''sensor'') (Some [1, 2, 3]) 3
          (created filter_config))) = proc (created filter_config) \<and>
   event_processor_queue_size Handle
     (snd (event_processor_push all_ok Handle EVENT_TYPE_ERROR (Some ''sensor'') (Some [1, 2, 3]) 3
          (created filter_config))) = 0 \<and>
   live_blocks (snd (event_processor_push all_ok Handle EVENT_TYPE_ERROR (Some ''sensor'')
          (Some [1, 2, 3]) 3 (created filter_config))) = live_blocks (created filter_config) \<and>
   delivered (calls (snd (event_processor_push all_ok Handle EVENT_TYPE_ERROR (Some ''sensor'')
          (Some [1, 2, 3]) 3 (created filter_config)))) = delivered (calls (created filter_config))"
proof -
  have nf: "\<not> queue_full (created filter_config)"
    by (simp add: queue_full_def created_filter_proc filter_config_fields)
  have ok: "node_ok all_ok" by (simp add: all_ok_def)
  have f: "on_filter (config (proc (created filter_config))) =
             Some (\<lambda>e u. (type e \<noteq> EVENT_TYPE_ERROR, u))"
    by (simp add: created_filter_proc filter_config_fields)
  have r: "\<not> fst ((\<lambda>e u. (type e \<noteq> EVENT_TYPE_ERROR, u))
             (event (fst (build_node all_ok EVENT_TYPE_ERROR (Some ''sensor'') (Some [1, 2, 3]) 3
                (created filter_config))))
             (user_data (created filter_config)))"
    by (simp add: build_node_event)
  note t = push_filtered_returns_true [OF nf ok f r]
  from t have 1: "fst (event_processor_push all_ok Handle EVENT_TYPE_ERROR (Some ''sensor'')
      (Some [1, 2, 3]) 3 (created filter_config)) = True"
    by (rule conjunct1)
  from t have 2: "proc (snd (event_processor_push all_ok Handle EVENT_TYPE_ERROR (Some ''sensor'')
      (Some [1, 2, 3]) 3 (created filter_config))) = proc (created filter_config)"
    by (rule conjunct2 [THEN conjunct1])
  from t have 3: "live_blocks (snd (event_processor_push all_ok Handle EVENT_TYPE_ERROR
      (Some ''sensor'') (Some [1, 2, 3]) 3 (created filter_config))) =
      live_blocks (created filter_config)"
    by (rule conjunct2 [THEN conjunct2, THEN conjunct2, THEN conjunct1])
  from t have 4: "delivered (calls (snd (event_processor_push all_ok Handle EVENT_TYPE_ERROR
      (Some ''sensor'') (Some [1, 2, 3]) 3 (created filter_config)))) =
      delivered (calls (created filter_config))"
    by (rule conjunct2 [THEN conjunct2, THEN conjunct2, THEN conjunct2, THEN conjunct1])
  from 1 2 3 4 nf ok show ?thesis
    by (simp add: created_filter_proc event_processor_queue_size_def filter_config_fields)
qed

subsection \<open>C7: processing is gated by the state\<close>

text \<open>
  C7. In state Idle or Stopped \<^verbatim>\<open>event_processor_process\<close> leaves the processor object as
  it was (queue, counters and state, hence what the three queries answer), hands no event to
  the consume callback and frees nothing: the memory is unchanged when the queue is empty, and
  otherwise differs by the one warning given to the log hook.
\<close>

theorem process_gated_when_idle_or_stopped:
  assumes "state (proc m) = STATE_IDLE \<or> state (proc m) = STATE_STOPPED"
  shows "proc (event_processor_process Handle m) = proc m \<and>
         event_processor_queue_size Handle (event_processor_process Handle m) =
           event_processor_queue_size Handle m \<and>
         event_processor_events_processed Handle (event_processor_process Handle m) =
           event_processor_events_processed Handle m \<and>
         event_processor_get_state Handle (event_processor_process Handle m) =
           event_processor_get_state Handle m \<and>
         delivered (calls (event_processor_process Handle m)) = delivered (calls m) \<and>
         live_blocks (event_processor_process Handle m) = live_blocks m \<and>
         event_processor_process Handle m =
           (if queue (proc m) = [] then m else log_message m ''WARN'' ''Processor not running'')"
proof -
  from assms have nr: "state (proc m) \<noteq> STATE_RUNNING"
    using state_consts_distinct by auto
  show ?thesis
    by (simp add: process_not_running [OF nr] log_message_proc log_message_delivered
        log_message_live event_processor_queue_size_def event_processor_events_processed_def
        event_processor_get_state_def)
qed

theorem process_gated_when_idle_or_stopped_witness:
  "(state (proc idle_with_one) = STATE_IDLE \<or> state (proc idle_with_one) = STATE_STOPPED) \<and>
   queue (proc idle_with_one) \<noteq> [] \<and>
   proc (event_processor_process Handle idle_with_one) = proc idle_with_one \<and>
   delivered (calls (event_processor_process Handle idle_with_one)) =
     delivered (calls idle_with_one) \<and>
   event_processor_process Handle idle_with_one =
     log_message idle_with_one ''WARN'' ''Processor not running''"
proof -
  have st: "state (proc idle_with_one) = STATE_IDLE \<or> state (proc idle_with_one) = STATE_STOPPED"
    by (simp add: idle_with_one_proc)
  have ne: "queue (proc idle_with_one) \<noteq> []"
    by (simp add: idle_with_one_proc)
  from process_gated_when_idle_or_stopped [OF st] st ne show ?thesis
    by (simp add: log_message_proc log_message_delivered)
qed

subsection \<open>C8: state transitions\<close>

text \<open>
  C8. \<^verbatim>\<open>change_state\<close> to the current state returns the memory as it was: no log entry, no
  notification. So a second \<^verbatim>\<open>event_processor_start\<close> in a row changes nothing, and two
  starts in a row add exactly one state-change notification when the processor was not
  running and the hook is set (and none otherwise). On an actual transition the calls made
  are, in this order: the log entry (when logging is on and the log hook is set), made while
  the processor is still in the old state, and the notification (when that hook is set), made
  when the processor is in the new state. So the log entry comes before the state is written
  and before the state-change callback, and the state is written before that callback.
\<close>

theorem transition_noop_and_order:
  "(state (proc m) = ns \<longrightarrow> change_state ns m = m) \<and>
   event_processor_start Handle (event_processor_start Handle m) = event_processor_start Handle m \<and>
   state_changes (calls (event_processor_start Handle (event_processor_start Handle m))) =
     state_changes (calls m) @
     (if state (proc m) \<noteq> STATE_RUNNING \<and> on_state_change (config (proc m)) \<noteq> None
      then [(state_to_string (state (proc m)), ''RUNNING'')] else []) \<and>
   (state (proc m) \<noteq> ns \<longrightarrow>
      state (proc (change_state ns m)) = ns \<and>
      calls (change_state ns m) =
        calls m @
        (if enable_logging (config (proc m)) \<and> on_log (config (proc m)) \<noteq> None
         then [(state (proc m),
                LogCall ''INFO''
                  (take 255 (''State change: '' @ state_to_string (state (proc m)) @ '' -> '' @
                             state_to_string ns)))]
         else []) @
        (if on_state_change (config (proc m)) \<noteq> None
         then [(ns, StateChangeCall (state_to_string (state (proc m))) (state_to_string ns))]
         else [])) \<and>
   (state (proc m) \<noteq> ns \<longrightarrow>
      (let old = state_to_string (state (proc m));
           new = state_to_string ns;
           m1 = log_message m ''INFO'' (''State change: '' @ old @ '' -> '' @ new)
       in change_state ns m =
            (case on_state_change (config (proc m)) of
               None \<Rightarrow> m1\<lparr>proc := (proc m)\<lparr>state := ns\<rparr>\<rparr>
             | Some cb \<Rightarrow>
                 m1\<lparr>proc := (proc m)\<lparr>state := ns\<rparr>,
                    user_data := cb old new (user_data m1),
                    calls := calls m1 @ [(ns, StateChangeCall old new)]\<rparr>)))"
proof (intro conjI impI)
  show "change_state ns m = m" if "state (proc m) = ns"
    using that by (rule change_state_same)
  show "event_processor_start Handle (event_processor_start Handle m) = event_processor_start Handle m"
    by (simp add: event_processor_start_def change_state_same change_state_state)
  show "state_changes (calls (event_processor_start Handle (event_processor_start Handle m))) =
     state_changes (calls m) @
     (if state (proc m) \<noteq> STATE_RUNNING \<and> on_state_change (config (proc m)) \<noteq> None
      then [(state_to_string (state (proc m)), ''RUNNING'')] else [])"
    by (simp add: event_processor_start_def change_state_same change_state_state
        change_state_changes) (simp add: state_to_string_def STATE_RUNNING_def STATE_IDLE_def)
  show "state (proc (change_state ns m)) = ns"
    by (rule change_state_state)
  show "calls (change_state ns m) =
        calls m @
        (if enable_logging (config (proc m)) \<and> on_log (config (proc m)) \<noteq> None
         then [(state (proc m),
                LogCall ''INFO''
                  (take 255 (''State change: '' @ state_to_string (state (proc m)) @ '' -> '' @
                             state_to_string ns)))]
         else []) @
        (if on_state_change (config (proc m)) \<noteq> None
         then [(ns, StateChangeCall (state_to_string (state (proc m))) (state_to_string ns))]
         else [])"
    if "state (proc m) \<noteq> ns"
    using that by (rule change_state_calls)
  show "let old = state_to_string (state (proc m));
           new = state_to_string ns;
           m1 = log_message m ''INFO'' (''State change: '' @ old @ '' -> '' @ new)
       in change_state ns m =
            (case on_state_change (config (proc m)) of
               None \<Rightarrow> m1\<lparr>proc := (proc m)\<lparr>state := ns\<rparr>\<rparr>
             | Some cb \<Rightarrow>
                 m1\<lparr>proc := (proc m)\<lparr>state := ns\<rparr>,
                    user_data := cb old new (user_data m1),
                    calls := calls m1 @ [(ns, StateChangeCall old new)]\<rparr>)"
    if "state (proc m) \<noteq> ns"
    using that by (simp add: change_state_def Let_def log_message_proc split: option.split)
qed

theorem transition_noop_and_order_witness:
  "state (proc (created sample_config)) = STATE_IDLE \<and>
   change_state STATE_IDLE (created sample_config) = created sample_config \<and>
   state (proc (created sample_config)) \<noteq> STATE_RUNNING \<and>
   state_changes (calls (created sample_config)) = [] \<and>
   state_changes
     (calls (event_processor_start Handle (event_processor_start Handle (created sample_config)))) =
     [(''IDLE'', ''RUNNING'')] \<and>
   state (proc (change_state STATE_RUNNING (created sample_config))) = STATE_RUNNING \<and>
   calls (change_state STATE_RUNNING (created sample_config)) =
     calls (created sample_config) @
     [(STATE_IDLE, LogCall ''INFO'' ''State change: IDLE -> RUNNING''),
      (STATE_RUNNING, StateChangeCall ''IDLE'' ''RUNNING'')] \<and>
   state (proc running) = STATE_RUNNING \<and>
   state_changes (calls (event_processor_start Handle (event_processor_start Handle running))) =
     state_changes (calls running)"
proof -
  have c: "state_changes (calls (created sample_config)) = []"
    by (simp add: created_def blank_def sample_config_def event_processor_create_def strdup_def
        log_message_def Let_def)
  have f: "enable_logging (config (proc (created sample_config)))"
    "on_log (config (proc (created sample_config))) \<noteq> None"
    "on_state_change (config (proc (created sample_config))) \<noteq> None"
    by (simp_all add: created_sample_proc) (simp_all add: sample_config_def)
  have s: "state (proc (created sample_config)) = STATE_IDLE" "state (proc running) = STATE_RUNNING"
    by (simp_all add: created_sample_proc running_proc)
  have t: "state_to_string STATE_IDLE = ''IDLE''" "state_to_string STATE_RUNNING = ''RUNNING''"
    by (simp_all add: state_to_string_def STATE_RUNNING_def STATE_IDLE_def)
  note a = transition_noop_and_order [of "created sample_config" STATE_IDLE]
  note b = transition_noop_and_order [of "created sample_config" STATE_RUNNING]
  note r = transition_noop_and_order [of running STATE_RUNNING]
  from a s have 1: "change_state STATE_IDLE (created sample_config) = created sample_config"
    by blast
  from b [THEN conjunct2, THEN conjunct2, THEN conjunct1] have 2:
    "state_changes
       (calls (event_processor_start Handle (event_processor_start Handle (created sample_config)))) =
     [(''IDLE'', ''RUNNING'')]"
    by (simp add: s f t c state_consts_distinct)
  from b [THEN conjunct2, THEN conjunct2, THEN conjunct2, THEN conjunct1] have 3:
    "state (proc (change_state STATE_RUNNING (created sample_config))) = STATE_RUNNING \<and>
     calls (change_state STATE_RUNNING (created sample_config)) =
       calls (created sample_config) @
       [(STATE_IDLE, LogCall ''INFO'' ''State change: IDLE -> RUNNING''),
        (STATE_RUNNING, StateChangeCall ''IDLE'' ''RUNNING'')]"
    by (simp add: s f t state_consts_distinct)
  from r [THEN conjunct2, THEN conjunct2, THEN conjunct1] have 4:
    "state_changes (calls (event_processor_start Handle (event_processor_start Handle running))) =
     state_changes (calls running)"
    by (simp add: s)
  from 1 2 3 4 s c show ?thesis
    by (simp add: state_consts_distinct)
qed

subsection \<open>C9: queries\<close>

text \<open>
  C9. The three queries only read: each is a function of the handle and the memory that
  returns a value and no memory. On a null handle they answer \<open>''INVALID''\<close>, 0 and 0. On
  a live handle \<^verbatim>\<open>event_processor_get_state\<close> answers \<open>''IDLE''\<close>, \<open>''RUNNING''\<close> or
  \<open>''STOPPED''\<close> exactly for the three defined states, and \<open>''UNKNOWN''\<close> exactly for every
  other value of the state field; the other two answer the two counters.
\<close>

theorem queries_sentinels_and_names:
  "event_processor_get_state NULL m = ''INVALID'' \<and>
   event_processor_queue_size NULL m = 0 \<and>
   event_processor_events_processed NULL m = 0 \<and>
   event_processor_queue_size Handle m = queue_size (proc m) \<and>
   event_processor_events_processed Handle m = events_processed (proc m) \<and>
   (event_processor_get_state Handle m = ''IDLE'' \<longleftrightarrow> state (proc m) = STATE_IDLE) \<and>
   (event_processor_get_state Handle m = ''RUNNING'' \<longleftrightarrow> state (proc m) = STATE_RUNNING) \<and>
   (event_processor_get_state Handle m = ''STOPPED'' \<longleftrightarrow> state (proc m) = STATE_STOPPED) \<and>
   (event_processor_get_state Handle m = ''UNKNOWN'' \<longleftrightarrow>
      state (proc m) \<notin> {STATE_IDLE, STATE_RUNNING, STATE_STOPPED})"
  by (simp add: event_processor_get_state_def event_processor_queue_size_def
      event_processor_events_processed_def state_to_string_def
      STATE_IDLE_def STATE_RUNNING_def STATE_STOPPED_def)

subsection \<open>C10: processing an empty queue\<close>

text \<open>
  C10. With an empty queue \<^verbatim>\<open>event_processor_process\<close> returns the memory as it was, in
  every state of the processor: nothing is logged, no callback runs, nothing is freed. The
  empty-queue test comes before the state test.
\<close>

theorem process_empty_queue_silent:
  "queue (proc m) = [] \<Longrightarrow> event_processor_process h m = m"
  by (simp add: event_processor_process_def split: handle.split)

theorem process_empty_queue_silent_witness:
  "queue (proc (created sample_config)) = [] \<and>
   state (proc (created sample_config)) = STATE_IDLE \<and>
   event_processor_process Handle (created sample_config) = created sample_config"
  using process_empty_queue_silent [of "created sample_config" Handle]
  by (simp add: created_sample_proc)

end
